theory Spec2Isabelle
  imports Complex_Main "HOL-Library.Signed_Division"
begin

section \<open>Game of life on a terminal: a shallow embedding of \<^verbatim>\<open>src/main.cpp\<close>\<close>

text \<open>
  The program keeps two grids of booleans, computes Conway's rule from one into the
  other, and drives this from a keyboard loop. Each C++ function is a HOL function
  named after it. A C++ \<^verbatim>\<open>int\<close> is a HOL \<open>int\<close> that must stay within 32 bits:
  arithmetic that leaves the range, a remainder by zero and an array access outside the
  allocation are undefined behaviour in C++, and are the value \<open>Inl Undefined_behaviour\<close>
  here. A failed \<^verbatim>\<open>assert\<close> and the exceptions of the standard library are faults too.
  Memory is assumed sufficient: an allocation of a non-negative size succeeds.
\<close>

subsection \<open>Faults and checked arithmetic\<close>

datatype fault =
    Undefined_behaviour
  | Assertion_failed
  | Bad_array_new_length
  | Invalid_argument
  | Out_of_range

definition seq :: "fault + 'a \<Rightarrow> ('a \<Rightarrow> fault + 'b) \<Rightarrow> fault + 'b" where
  "seq r f = (case r of Inl e \<Rightarrow> Inl e | Inr v \<Rightarrow> f v)"

lemma seq_Inl [simp]: "seq (Inl e) f = Inl e"
  by (simp add: seq_def)

lemma seq_Inr [simp]: "seq (Inr v) f = f v"
  by (simp add: seq_def)

lemma seq_cong [fundef_cong]:
  "r = r' \<Longrightarrow> (\<And>v. r' = Inr v \<Longrightarrow> f v = f' v) \<Longrightarrow> seq r f = seq r' f'"
  by (cases r') (simp_all add: seq_def)

lemma seq_eq_Inr: "seq r f = Inr b \<longleftrightarrow> (\<exists>a. r = Inr a \<and> f a = Inr b)"
  by (cases r) simp_all

definition INT_MAX :: int where
  "INT_MAX = 2147483647"

definition INT_MIN :: int where
  "INT_MIN = - 2147483648"

definition int_ok :: "int \<Rightarrow> bool" where
  "int_ok v = (INT_MIN \<le> v \<and> v \<le> INT_MAX)"

definition checked :: "int \<Rightarrow> fault + int" where
  "checked v = (if int_ok v then Inr v else Inl Undefined_behaviour)"

definition cadd :: "int \<Rightarrow> int \<Rightarrow> fault + int" where
  "cadd a b = checked (a + b)"

definition cmul :: "int \<Rightarrow> int \<Rightarrow> fault + int" where
  "cmul a b = checked (a * b)"

text \<open>C++ \<^verbatim>\<open>/\<close> and \<^verbatim>\<open>%\<close> truncate towards zero: \<open>sdiv\<close> and \<open>smod\<close>, not \<open>div\<close> and \<open>mod\<close>.\<close>

definition crem :: "int \<Rightarrow> int \<Rightarrow> fault + int" where
  "crem a b = (if b = 0 \<or> (a = INT_MIN \<and> b = - 1) then Inl Undefined_behaviour
               else Inr (a smod b))"

definition cdiv :: "int \<Rightarrow> int \<Rightarrow> fault + int" where
  "cdiv a b = (if b = 0 \<or> (a = INT_MIN \<and> b = - 1) then Inl Undefined_behaviour
               else Inr (a sdiv b))"

subsection \<open>The grid (\<^verbatim>\<open>class grid\<close>)\<close>

record grid =
  width :: int
  height :: int
  data :: "bool list"

text \<open>
  \<^verbatim>\<open>grid(int w, int h) : width{w}, height{h}, data{new bool[width * height]}\<close>.
  The array is default-initialised: its cells hold whatever the allocator hands out.
  The parameter \<open>mem\<close> is that content, cell by cell. A negative size makes
  \<^verbatim>\<open>new\<close> throw.
\<close>

definition new_grid :: "(nat \<Rightarrow> bool) \<Rightarrow> int \<Rightarrow> int \<Rightarrow> fault + grid" where
  "new_grid mem w h =
     seq (cmul w h) (\<lambda>n.
       if n < 0 then Inl Bad_array_new_length
       else Inr \<lparr>width = w, height = h, data = map mem [0..<nat n]\<rparr>)"

text \<open>Two possible contents of fresh storage.\<close>

definition mem_zero :: "nat \<Rightarrow> bool" where
  "mem_zero i = False"

definition mem_ones :: "nat \<Rightarrow> bool" where
  "mem_ones i = True"

text \<open>
  \<^verbatim>\<open>operator()(int x, int y)\<close> returns a reference to
  \<^verbatim>\<open>data[((x+width)%width) + ((y+height)%height) * width]\<close>.
  \<open>index_expr\<close> is the subscript, \<open>cell_index\<close> the subscript once it is known to lie
  inside the array, \<open>grid_get\<close> and \<open>grid_set\<close> a read and a write through the reference.
\<close>

definition index_expr :: "grid \<Rightarrow> int \<Rightarrow> int \<Rightarrow> fault + int" where
  "index_expr g x y =
     seq (cadd x (width g)) (\<lambda>xw.
     seq (crem xw (width g)) (\<lambda>col.
     seq (cadd y (height g)) (\<lambda>yh.
     seq (crem yh (height g)) (\<lambda>row.
     seq (cmul row (width g)) (\<lambda>off.
     cadd col off)))))"

definition in_bounds :: "grid \<Rightarrow> int \<Rightarrow> bool" where
  "in_bounds g i = (0 \<le> i \<and> i < int (length (data g)))"

definition cell_index :: "grid \<Rightarrow> int \<Rightarrow> int \<Rightarrow> fault + nat" where
  "cell_index g x y =
     seq (index_expr g x y) (\<lambda>i.
       if in_bounds g i then Inr (nat i) else Inl Undefined_behaviour)"

definition grid_get :: "grid \<Rightarrow> int \<Rightarrow> int \<Rightarrow> fault + bool" where
  "grid_get g x y = seq (cell_index g x y) (\<lambda>i. Inr (data g ! i))"

definition grid_set :: "grid \<Rightarrow> int \<Rightarrow> int \<Rightarrow> bool \<Rightarrow> fault + grid" where
  "grid_set g x y v = seq (cell_index g x y) (\<lambda>i. Inr (g\<lparr>data := (data g)[i := v]\<rparr>))"

text \<open>
  What the constructor establishes: the array has \<open>width * height\<close> cells, and that
  product is an \<^verbatim>\<open>int\<close>.
\<close>

definition grid_wf :: "grid \<Rightarrow> bool" where
  "grid_wf g =
     (int_ok (width g) \<and> int_ok (height g) \<and> 0 \<le> width g * height g \<and>
      width g * height g \<le> INT_MAX \<and> length (data g) = nat (width g * height g))"

subsection \<open>Random numbers (\<^verbatim>\<open><random>\<close>)\<close>

text \<open>
  The standard library's generator is not part of the repository: it is a parameter.
  \<open>default_engine\<close> is the state of \<^verbatim>\<open>std::default_random_engine()\<close>,
  \<open>seeded_engine s\<close> that of \<^verbatim>\<open>std::default_random_engine{s}\<close>, and
  \<open>uniform lo hi e\<close> one call of \<^verbatim>\<open>std::uniform_int_distribution<int>{lo, hi}\<close> on an
  engine in state \<open>e\<close>: the value drawn and the engine's next state.
\<close>

record 'e rng =
  default_engine :: 'e
  seeded_engine :: "nat \<Rightarrow> 'e"
  uniform :: "int \<Rightarrow> int \<Rightarrow> 'e \<Rightarrow> int \<times> 'e"

text \<open>The \<open>m\<close>-th value (from 0) that successive calls draw, starting in state \<open>e\<close>.\<close>

fun draw_at :: "'e rng \<Rightarrow> int \<Rightarrow> int \<Rightarrow> 'e \<Rightarrow> nat \<Rightarrow> int" where
  "draw_at R lo hi e 0 = fst (uniform R lo hi e)"
| "draw_at R lo hi e (Suc m) = draw_at R lo hi (snd (uniform R lo hi e)) m"

text \<open>
  A small concrete generator, for evaluating the model: a linear congruential engine
  with Lehmer's constants, reduced into the requested interval.
\<close>

definition lehmer :: "int rng" where
  "lehmer =
     \<lparr>default_engine = 1,
      seeded_engine = (\<lambda>s. if int s mod 2147483647 = 0 then 1 else int s mod 2147483647),
      uniform = (\<lambda>lo hi e. (lo + (16807 * e mod 2147483647) mod (hi - lo + 1),
                             16807 * e mod 2147483647))\<rparr>"

text \<open>
  The probability that a value drawn uniformly from \<open>lo, \<dots>, hi\<close> satisfies \<open>P\<close>:
  favourable outcomes over all outcomes.
\<close>

definition uniform_probability :: "int \<Rightarrow> int \<Rightarrow> (int \<Rightarrow> bool) \<Rightarrow> rat" where
  "uniform_probability lo hi P =
     of_nat (length (filter P [lo..hi])) / of_nat (length [lo..hi])"

subsection \<open>Perturbations of a grid\<close>

text \<open>
  \<^verbatim>\<open>grid::big_bang\<close>: a generator bound to a fresh default engine and the interval
  0..10; each dead cell \<^verbatim>\<open>data[i]\<close>, for \<^verbatim>\<open>i < width*height\<close>, becomes
  \<^verbatim>\<open>bool(random_int_generator()==0)\<close>. The counter stays below \<^verbatim>\<open>width*height\<close>,
  which is an \<^verbatim>\<open>int\<close>, so \<^verbatim>\<open>i++\<close> cannot overflow.
\<close>

definition big_bang_lo :: int where
  "big_bang_lo = 0"

definition big_bang_hi :: int where
  "big_bang_hi = 10"

definition big_bang_alive :: "int \<Rightarrow> bool" where
  "big_bang_alive v = (v = 0)"

function big_bang_loop ::
  "'e rng \<Rightarrow> int \<Rightarrow> int \<Rightarrow> 'e \<Rightarrow> bool list \<Rightarrow> fault + bool list" where
  "big_bang_loop R n i e d =
     (if i < n then
        (if 0 \<le> i \<and> nat i < length d then
           (if \<not> d ! nat i then
              (case uniform R big_bang_lo big_bang_hi e of
                 (v, e') \<Rightarrow> big_bang_loop R n (i + 1) e' (d[nat i := big_bang_alive v]))
            else big_bang_loop R n (i + 1) e d)
         else Inl Undefined_behaviour)
      else Inr d)"
  by pat_completeness auto
termination
  by (relation "measure (\<lambda>(R, n, i, e, d). nat (n - i))") auto

declare big_bang_loop.simps [simp del]

definition big_bang :: "'e rng \<Rightarrow> grid \<Rightarrow> fault + grid" where
  "big_bang R g =
     seq (cmul (width g) (height g)) (\<lambda>n.
     seq (big_bang_loop R n 0 (default_engine R) (data g)) (\<lambda>d.
     Inr (g\<lparr>data := d\<rparr>)))"

text \<open>\<^verbatim>\<open>grid::invert\<close>: \<^verbatim>\<open>data[i] = !data[i]\<close> for every \<^verbatim>\<open>i < width*height\<close>.\<close>

function invert_loop :: "int \<Rightarrow> int \<Rightarrow> bool list \<Rightarrow> fault + bool list" where
  "invert_loop n i d =
     (if i < n then
        (if 0 \<le> i \<and> nat i < length d then invert_loop n (i + 1) (d[nat i := \<not> d ! nat i])
         else Inl Undefined_behaviour)
      else Inr d)"
  by pat_completeness auto
termination
  by (relation "measure (\<lambda>(n, i, d). nat (n - i))") auto

declare invert_loop.simps [simp del]

definition invert :: "grid \<Rightarrow> fault + grid" where
  "invert g =
     seq (cmul (width g) (height g)) (\<lambda>n.
     seq (invert_loop n 0 (data g)) (\<lambda>d.
     Inr (g\<lparr>data := d\<rparr>)))"

text \<open>
  \<^verbatim>\<open>grid::thanos\<close>: a generator bound to a fresh default engine and the interval 0..1;
  each live cell becomes \<^verbatim>\<open>bool(random_int_generator())\<close>, that is, stays alive iff the
  value drawn is not 0.
\<close>

definition thanos_lo :: int where
  "thanos_lo = 0"

definition thanos_hi :: int where
  "thanos_hi = 1"

definition thanos_alive :: "int \<Rightarrow> bool" where
  "thanos_alive v = (v \<noteq> 0)"

function thanos_loop ::
  "'e rng \<Rightarrow> int \<Rightarrow> int \<Rightarrow> 'e \<Rightarrow> bool list \<Rightarrow> fault + bool list" where
  "thanos_loop R n i e d =
     (if i < n then
        (if 0 \<le> i \<and> nat i < length d then
           (if d ! nat i then
              (case uniform R thanos_lo thanos_hi e of
                 (v, e') \<Rightarrow> thanos_loop R n (i + 1) e' (d[nat i := thanos_alive v]))
            else thanos_loop R n (i + 1) e d)
         else Inl Undefined_behaviour)
      else Inr d)"
  by pat_completeness auto
termination
  by (relation "measure (\<lambda>(R, n, i, e, d). nat (n - i))") auto

declare thanos_loop.simps [simp del]

definition thanos :: "'e rng \<Rightarrow> grid \<Rightarrow> fault + grid" where
  "thanos R g =
     seq (cmul (width g) (height g)) (\<lambda>n.
     seq (thanos_loop R n 0 (default_engine R) (data g)) (\<lambda>d.
     Inr (g\<lparr>data := d\<rparr>)))"

text \<open>The number of live cells of a grid.\<close>

definition live_count :: "grid \<Rightarrow> nat" where
  "live_count g = length (filter (\<lambda>c. c) (data g))"

text \<open>
  What the perturbation loops compute, cell by cell from the left: a dead (live) cell
  takes the next value of the engine, any other cell is kept and leaves the engine alone.
\<close>

fun big_bang_cells :: "'e rng \<Rightarrow> 'e \<Rightarrow> bool list \<Rightarrow> bool list" where
  "big_bang_cells R e [] = []"
| "big_bang_cells R e (c # cs) =
     (if \<not> c then
        (case uniform R big_bang_lo big_bang_hi e of
           (v, e') \<Rightarrow> big_bang_alive v # big_bang_cells R e' cs)
      else c # big_bang_cells R e cs)"

fun thanos_cells :: "'e rng \<Rightarrow> 'e \<Rightarrow> bool list \<Rightarrow> bool list" where
  "thanos_cells R e [] = []"
| "thanos_cells R e (c # cs) =
     (if c then
        (case uniform R thanos_lo thanos_hi e of
           (v, e') \<Rightarrow> thanos_alive v # thanos_cells R e' cs)
      else c # thanos_cells R e cs)"

text \<open>How many cells before position \<open>k\<close> are dead, and how many are alive.\<close>

definition dead_before :: "bool list \<Rightarrow> nat \<Rightarrow> nat" where
  "dead_before cs k = length (filter (\<lambda>c. \<not> c) (take k cs))"

definition live_before :: "bool list \<Rightarrow> nat \<Rightarrow> nat" where
  "live_before cs k = length (filter (\<lambda>c. c) (take k cs))"

subsection \<open>One generation (\<^verbatim>\<open>next_generation\<close>)\<close>

text \<open>
  One term of the sum of neighbours, such as \<^verbatim>\<open>(left && up && in(x - 1, y - 1))\<close>:
  the cell is read only when the flags before it hold (\<^verbatim>\<open>&&\<close> stops at the first
  false operand), and the term counts as 1 when the cell read is alive.
\<close>

definition neighbour :: "grid \<Rightarrow> bool \<Rightarrow> int \<Rightarrow> int \<Rightarrow> int \<Rightarrow> int \<Rightarrow> fault + bool" where
  "neighbour g c x dx y dy =
     (if c then seq (cadd x dx) (\<lambda>x'. seq (cadd y dy) (\<lambda>y'. grid_get g x' y'))
      else Inr False)"

definition neighbours :: "grid \<Rightarrow> bool \<Rightarrow> int \<Rightarrow> int \<Rightarrow> fault + int" where
  "neighbours g wrap x y =
     seq (cadd (width g) (- 1)) (\<lambda>last_x.
     seq (cadd (height g) (- 1)) (\<lambda>last_y.
       (let left = (wrap \<or> x \<noteq> 0);
            up = (wrap \<or> y \<noteq> 0);
            right = (wrap \<or> x \<noteq> last_x);
            down = (wrap \<or> y \<noteq> last_y)
        in
          seq (neighbour g (left \<and> up) x (- 1) y (- 1)) (\<lambda>n1.
          seq (neighbour g left x (- 1) y 0) (\<lambda>n2.
          seq (neighbour g (left \<and> down) x (- 1) y 1) (\<lambda>n3.
          seq (neighbour g up x 0 y (- 1)) (\<lambda>n4.
          seq (neighbour g down x 0 y 1) (\<lambda>n5.
          seq (neighbour g (right \<and> up) x 1 y (- 1)) (\<lambda>n6.
          seq (neighbour g right x 1 y 0) (\<lambda>n7.
          seq (neighbour g (right \<and> down) x 1 y 1) (\<lambda>n8.
            Inr (of_bool n1 + of_bool n2 + of_bool n3 + of_bool n4 +
                 of_bool n5 + of_bool n6 + of_bool n7 + of_bool n8))))))))))))"

text \<open>
  The value written to \<^verbatim>\<open>out(x, y)\<close>:
  \<^verbatim>\<open>(neighbours == 3 || (in(x, y) && neighbours == 2))\<close>.
\<close>

definition next_cell :: "grid \<Rightarrow> bool \<Rightarrow> int \<Rightarrow> int \<Rightarrow> fault + bool" where
  "next_cell g wrap x y =
     seq (neighbours g wrap x y) (\<lambda>n.
       if n = 3 then Inr True
       else seq (grid_get g x y) (\<lambda>c. Inr (c \<and> n = 2)))"

text \<open>
  The inner loop \<^verbatim>\<open>for (auto x = 0; x != in.width; ++x)\<close> and the outer loop
  \<^verbatim>\<open>for (auto y = 0; y != in.height; ++y)\<close>. The loops stop on equality, so a counter
  that never meets its bound runs into the overflow of \<^verbatim>\<open>++\<close>.
\<close>

function columns_loop :: "grid \<Rightarrow> bool \<Rightarrow> int \<Rightarrow> int \<Rightarrow> grid \<Rightarrow> fault + grid" where
  "columns_loop g wrap y x out =
     (if x = width g then Inr out
      else
        seq (next_cell g wrap x y) (\<lambda>v.
        seq (grid_set out x y v) (\<lambda>out'.
          if x < INT_MAX then columns_loop g wrap y (x + 1) out'
          else Inl Undefined_behaviour)))"
  by pat_completeness auto
termination
  by (relation "measure (\<lambda>(g, wrap, y, x, out). nat (INT_MAX - x))") auto

declare columns_loop.simps [simp del]

function rows_loop :: "grid \<Rightarrow> bool \<Rightarrow> int \<Rightarrow> grid \<Rightarrow> fault + grid" where
  "rows_loop g wrap y out =
     (if y = height g then Inr out
      else
        seq (columns_loop g wrap y 0 out) (\<lambda>out'.
          if y < INT_MAX then rows_loop g wrap (y + 1) out'
          else Inl Undefined_behaviour))"
  by pat_completeness auto
termination
  by (relation "measure (\<lambda>(g, wrap, y, out). nat (INT_MAX - y))") auto

declare rows_loop.simps [simp del]

definition next_generation :: "grid \<Rightarrow> grid \<Rightarrow> bool \<Rightarrow> fault + grid" where
  "next_generation g out wrap =
     (if width g = width out \<and> height g = height out then rows_loop g wrap 0 out
      else Inl Assertion_failed)"

text \<open>
  The rule in the words of the specification, to compare the code with. A position
  counts as a live neighbour when, with wrapping, the cell at the position taken modulo
  the width and the height is alive; without wrapping, when the position lies on the
  grid and its cell is alive (a position across a border counts as 0). The count runs
  over the eight surrounding positions, and a cell is alive in the next generation iff
  the count is 3, or the cell is alive and the count is 2.
\<close>

definition cell_at :: "grid \<Rightarrow> int \<Rightarrow> int \<Rightarrow> bool" where
  "cell_at g x y = data g ! nat (x + y * width g)"

definition life_neighbour :: "grid \<Rightarrow> bool \<Rightarrow> int \<Rightarrow> int \<Rightarrow> bool" where
  "life_neighbour g wrap x y =
     (if wrap then cell_at g (x mod width g) (y mod height g)
      else 0 \<le> x \<and> x < width g \<and> 0 \<le> y \<and> y < height g \<and> cell_at g x y)"

definition surrounding :: "(int \<times> int) list" where
  "surrounding = [(- 1, - 1), (- 1, 0), (- 1, 1), (0, - 1), (0, 1), (1, - 1), (1, 0), (1, 1)]"

definition life_count :: "grid \<Rightarrow> bool \<Rightarrow> int \<Rightarrow> int \<Rightarrow> int" where
  "life_count g wrap x y =
     sum_list (map (\<lambda>(dx, dy). of_bool (life_neighbour g wrap (x + dx) (y + dy))) surrounding)"

definition life_rule :: "grid \<Rightarrow> bool \<Rightarrow> int \<Rightarrow> int \<Rightarrow> bool" where
  "life_rule g wrap x y =
     (life_count g wrap x y = 3 \<or> (cell_at g x y \<and> life_count g wrap x y = 2))"

subsection \<open>Two grids (\<^verbatim>\<open>class double_buffered_grid\<close>)\<close>

text \<open>
  The members \<^verbatim>\<open>first\<close>, \<^verbatim>\<open>a\<close> and \<^verbatim>\<open>b\<close>; the two grids are the fields \<open>grid_a\<close> and
  \<open>grid_b\<close>. Each grid is an allocation of its own, with its own fresh storage.
  \<open>front\<close> and \<open>back_grid\<close> (the member \<^verbatim>\<open>back\<close>) return references: \<open>set_front\<close> and \<open>set_back\<close> store a grid that
  was changed through such a reference.
\<close>

record double_buffered_grid =
  first :: bool
  grid_a :: grid
  grid_b :: grid

definition new_double_buffered_grid ::
  "(nat \<Rightarrow> bool) \<Rightarrow> (nat \<Rightarrow> bool) \<Rightarrow> int \<Rightarrow> int \<Rightarrow> fault + double_buffered_grid" where
  "new_double_buffered_grid mem_a mem_b w h =
     seq (new_grid mem_a w h) (\<lambda>ga.
     seq (new_grid mem_b w h) (\<lambda>gb.
     Inr \<lparr>first = True, grid_a = ga, grid_b = gb\<rparr>))"

definition front :: "double_buffered_grid \<Rightarrow> grid" where
  "front d = (if first d then grid_a d else grid_b d)"

definition back_grid :: "double_buffered_grid \<Rightarrow> grid" where
  "back_grid d = (if first d then grid_b d else grid_a d)"

definition set_front :: "double_buffered_grid \<Rightarrow> grid \<Rightarrow> double_buffered_grid" where
  "set_front d g = (if first d then d\<lparr>grid_a := g\<rparr> else d\<lparr>grid_b := g\<rparr>)"

definition set_back :: "double_buffered_grid \<Rightarrow> grid \<Rightarrow> double_buffered_grid" where
  "set_back d g = (if first d then d\<lparr>grid_b := g\<rparr> else d\<lparr>grid_a := g\<rparr>)"

definition swap :: "double_buffered_grid \<Rightarrow> double_buffered_grid" where
  "swap d = d\<lparr>first := \<not> first d\<rparr>"

subsection \<open>The game (\<^verbatim>\<open>class game_of_life\<close>)\<close>

record game_of_life =
  buffer :: double_buffered_grid

text \<open>
  The constructor fills the back grid from an engine seeded with the clock and swaps:
  \<^verbatim>\<open>for (auto i = 0; i != width * height; ++i)
    grid(i % width, i / width) = distribution(engine) == 0;\<close>
  with \<^verbatim>\<open>frequency = 3\<close> and a distribution over \<^verbatim>\<open>{0, frequency}\<close>.
\<close>

definition frequency :: int where
  "frequency = 3"

definition initial_alive :: "int \<Rightarrow> bool" where
  "initial_alive v = (v = 0)"

function randomize_loop ::
  "'e rng \<Rightarrow> int \<Rightarrow> int \<Rightarrow> int \<Rightarrow> 'e \<Rightarrow> grid \<Rightarrow> fault + grid" where
  "randomize_loop R w n i e g =
     (if i = n then Inr g
      else
        seq (crem i w) (\<lambda>x.
        seq (cdiv i w) (\<lambda>y.
          (case uniform R 0 frequency e of
             (v, e') \<Rightarrow>
               seq (grid_set g x y (initial_alive v)) (\<lambda>g'.
                 if i < INT_MAX then randomize_loop R w n (i + 1) e' g'
                 else Inl Undefined_behaviour)))))"
  by pat_completeness auto
termination
  by (relation "measure (\<lambda>(R, w, n, i, e, g). nat (INT_MAX - i))") auto

declare randomize_loop.simps [simp del]

definition new_game_of_life ::
  "'e rng \<Rightarrow> nat \<Rightarrow> (nat \<Rightarrow> bool) \<Rightarrow> (nat \<Rightarrow> bool) \<Rightarrow> int \<Rightarrow> int \<Rightarrow> fault + game_of_life" where
  "new_game_of_life R seed mem_a mem_b w h =
     seq (new_double_buffered_grid mem_a mem_b w h) (\<lambda>buf.
     seq (cmul w h) (\<lambda>n.
     seq (randomize_loop R w n 0 (seeded_engine R seed) (back_grid buf)) (\<lambda>g.
     Inr \<lparr>buffer = swap (set_back buf g)\<rparr>)))"

text \<open>\<^verbatim>\<open>tick\<close>: \<^verbatim>\<open>next_generation(buffer.front(), buffer.back(), wrap); buffer.swap();\<close>\<close>

definition tick :: "game_of_life \<Rightarrow> bool \<Rightarrow> fault + game_of_life" where
  "tick G wrap =
     seq (next_generation (front (buffer G)) (back_grid (buffer G)) wrap) (\<lambda>out.
     Inr (G\<lparr>buffer := swap (set_back (buffer G) out)\<rparr>))"

text \<open>The three perturbations of the game act on \<^verbatim>\<open>buffer.front()\<close>.\<close>

definition game_big_bang :: "'e rng \<Rightarrow> game_of_life \<Rightarrow> fault + game_of_life" where
  "game_big_bang R G =
     seq (big_bang R (front (buffer G))) (\<lambda>g. Inr (G\<lparr>buffer := set_front (buffer G) g\<rparr>))"

definition game_invert :: "game_of_life \<Rightarrow> fault + game_of_life" where
  "game_invert G =
     seq (invert (front (buffer G))) (\<lambda>g. Inr (G\<lparr>buffer := set_front (buffer G) g\<rparr>))"

definition game_thanos :: "'e rng \<Rightarrow> game_of_life \<Rightarrow> fault + game_of_life" where
  "game_thanos R G =
     seq (thanos R (front (buffer G))) (\<lambda>g. Inr (G\<lparr>buffer := set_front (buffer G) g\<rparr>))"

text \<open>
  \<^verbatim>\<open>render\<close> asserts an even height and writes one line of glyphs for each pair of rows:
  \<^verbatim>\<open>top ? (bottom ? full : upper) : (bottom ? lower : " ")\<close>. The result here is the
  list of lines written.
\<close>

datatype glyph = Blank | Upper | Lower | Full

definition glyph_of :: "bool \<Rightarrow> bool \<Rightarrow> glyph" where
  "glyph_of upper_cell lower_cell =
     (if upper_cell then (if lower_cell then Full else Upper) else (if lower_cell then Lower else Blank))"

function render_line :: "grid \<Rightarrow> int \<Rightarrow> int \<Rightarrow> glyph list \<Rightarrow> fault + glyph list" where
  "render_line g y x line =
     (if x = width g then Inr line
      else
        seq (grid_get g x y) (\<lambda>upper_cell.
        seq (cadd y 1) (\<lambda>y1.
        seq (grid_get g x y1) (\<lambda>lower_cell.
          if x < INT_MAX then render_line g y (x + 1) (line @ [glyph_of upper_cell lower_cell])
          else Inl Undefined_behaviour))))"
  by pat_completeness auto
termination
  by (relation "measure (\<lambda>(g, y, x, line). nat (INT_MAX - x))") auto

declare render_line.simps [simp del]

function render_lines :: "grid \<Rightarrow> int \<Rightarrow> glyph list list \<Rightarrow> fault + glyph list list" where
  "render_lines g y lines =
     (if y = height g then Inr lines
      else
        seq (render_line g y 0 []) (\<lambda>line.
          if y + 2 \<le> INT_MAX then render_lines g (y + 2) (lines @ [line])
          else Inl Undefined_behaviour))"
  by pat_completeness auto
termination
  by (relation "measure (\<lambda>(g, y, lines). nat (INT_MAX - y))") auto

declare render_lines.simps [simp del]

definition render :: "game_of_life \<Rightarrow> fault + glyph list list" where
  "render G =
     seq (crem (height (front (buffer G))) 2) (\<lambda>r.
       if r = 0 then render_lines (front (buffer G)) 0 [] else Inl Assertion_failed)"

subsection \<open>Starting a game (\<^verbatim>\<open>new_game\<close>)\<close>

text \<open>
  \<^verbatim>\<open>std::stoi\<close> belongs to the standard library; this is its documented behaviour in
  base 10: leading white space is skipped, a sign may follow, then at least one digit,
  and anything after the digits is ignored. No digit throws
  \<^verbatim>\<open>std::invalid_argument\<close>, a value outside \<^verbatim>\<open>int\<close> throws \<^verbatim>\<open>std::out_of_range\<close>.
\<close>

definition is_space :: "char \<Rightarrow> bool" where
  "is_space c = (c \<in> set [CHR '' '', CHR 0x09, CHR 0x0A, CHR 0x0B, CHR 0x0C, CHR 0x0D])"

definition is_digit :: "char \<Rightarrow> bool" where
  "is_digit c = (48 \<le> (of_char c :: nat) \<and> (of_char c :: nat) \<le> 57)"

definition digit_value :: "char \<Rightarrow> int" where
  "digit_value c = of_char c - 48"

definition stoi :: "string \<Rightarrow> fault + int" where
  "stoi s =
     (let t = dropWhile is_space s;
          negative = (t \<noteq> [] \<and> hd t = CHR ''-'');
          u = (if t \<noteq> [] \<and> (hd t = CHR ''-'' \<or> hd t = CHR ''+'') then tl t else t);
          ds = takeWhile is_digit u;
          v = foldl (\<lambda>acc c. acc * 10 + digit_value c) 0 ds;
          r = (if negative then - v else v)
      in if ds = [] then Inl Invalid_argument
         else if int_ok r then Inr r
         else Inl Out_of_range)"

text \<open>
  What \<^verbatim>\<open>new_game\<close> reads from outside the program: the size of the terminal
  (\<^verbatim>\<open>getmaxyx\<close>), the two environment variables, the clock that seeds the engine, and
  the storage the two grids are allocated in.
\<close>

record environment =
  terminal_rows :: int
  terminal_columns :: int
  GOL_WIDTH :: "string option"
  GOL_HEIGHT :: "string option"
  clock :: nat
  storage_a :: "nat \<Rightarrow> bool"
  storage_b :: "nat \<Rightarrow> bool"

text \<open>
  The width and height requested: lines 233 to 243 of \<^verbatim>\<open>new_game\<close>, before the
  constructor is called with \<^verbatim>\<open>{width, height * 2}\<close>.
\<close>

definition requested_size :: "environment \<Rightarrow> fault + int \<times> int" where
  "requested_size env =
     seq (case GOL_WIDTH env of None \<Rightarrow> Inr (terminal_columns env) | Some s \<Rightarrow> stoi s) (\<lambda>w.
     seq (case GOL_HEIGHT env of None \<Rightarrow> Inr (terminal_rows env) | Some s \<Rightarrow> stoi s) (\<lambda>h.
     Inr (w, h)))"

definition new_game :: "'e rng \<Rightarrow> environment \<Rightarrow> fault + game_of_life" where
  "new_game R env =
     seq (requested_size env) (\<lambda>(w, h).
     seq (cmul h 2) (\<lambda>h2.
     new_game_of_life R (clock env) (storage_a env) (storage_b env) w h2))"

text \<open>A terminal of 24 rows and 80 columns, with the width overridden to 0.\<close>

definition zero_width_environment :: environment where
  "zero_width_environment =
     \<lparr>terminal_rows = 24, terminal_columns = 80, GOL_WIDTH = Some ''0'', GOL_HEIGHT = None,
      clock = 12345, storage_a = mem_zero, storage_b = mem_zero\<rparr>"

text \<open>The same terminal, with a board of 3 columns and 2 rows of cells requested.\<close>

definition small_environment :: environment where
  "small_environment =
     \<lparr>terminal_rows = 24, terminal_columns = 80, GOL_WIDTH = Some ''3'', GOL_HEIGHT = Some ''1'',
      clock = 12345, storage_a = mem_ones, storage_b = mem_zero\<rparr>"

text \<open>
  What one generation needs of its input: a grid with at least one cell, as the
  constructor leaves it, whose doubled sides are still \<^verbatim>\<open>int\<close>s (the accessor adds the
  width to a column that can be as large as the width).
\<close>

definition grid_ready :: "grid \<Rightarrow> bool" where
  "grid_ready g =
     (grid_wf g \<and> 0 < width g \<and> 0 < height g \<and>
      width g + width g \<le> INT_MAX \<and> height g + height g \<le> INT_MAX)"

text \<open>Two 4 by 4 grids to evaluate on: a row of three cells around the left border, and a used buffer.\<close>

definition row_pattern :: grid where
  "row_pattern = \<lparr>width = 4, height = 4,
     data = [True, True, False, True,
             False, False, False, False,
             False, False, False, False,
             False, False, False, False]\<rparr>"

definition stale_grid :: grid where
  "stale_grid = \<lparr>width = 4, height = 4,
     data = [True, False, True, False,
             True, True, True, True,
             False, False, False, True,
             False, True, False, False]\<rparr>"

text \<open>A 3 by 2 grid with one live cell.\<close>

definition lone_cell :: grid where
  "lone_cell = \<lparr>width = 3, height = 2, data = [True, False, False, False, False, False]\<rparr>"

subsection \<open>The control loop (\<^verbatim>\<open>main\<close>)\<close>

definition min_tick_ms :: int where
  "min_tick_ms = 8"

definition max_tick_ms :: int where
  "max_tick_ms = 1024"

text \<open>
  \<^verbatim>\<open>getch\<close> returns a character code, or a code above the characters for an event.
  \<^verbatim>\<open>KEY_RESIZE\<close> comes from the header of ncurses, where it is 0632 (octal).
\<close>

definition KEY_RESIZE :: int where
  "KEY_RESIZE = 410"

definition key_of :: "char \<Rightarrow> int" where
  "key_of c = of_char c"

text \<open>
  The variables of \<^verbatim>\<open>main\<close> that the loop changes; the field \<open>wrapping\<close> is the variable
  \<^verbatim>\<open>wrap\<close>. The calls the loop makes on the game and on the terminal are recorded in
  the order in which they are made.
\<close>

record control =
  tick_ms :: int
  running :: bool
  wrapping :: bool

datatype call =
    New_game
  | Render
  | Timeout int
  | Big_bang
  | Invert
  | Thanos
  | Tick bool

definition initial_control :: control where
  "initial_control = \<lparr>tick_ms = min_tick_ms, running = True, wrapping = True\<rparr>"

text \<open>
  One pass through the body of \<^verbatim>\<open>while (true)\<close>, for the key read and the value of
  \<^verbatim>\<open>random_selector\<close> drawn in that pass: the variables afterwards, the calls made, and
  whether the loop is left. The \<^verbatim>\<open>if\<close> statements follow one another without
  \<^verbatim>\<open>else\<close> or \<^verbatim>\<open>continue\<close>, each seeing the variables as the ones before left them.
  \<^verbatim>\<open>tick_ms *= 2\<close> runs only below \<^verbatim>\<open>max_tick_ms\<close> and \<^verbatim>\<open>tick_ms /= 2\<close> truncates.
\<close>

definition loop_body :: "int \<Rightarrow> int \<Rightarrow> control \<Rightarrow> control \<times> call list \<times> bool" where
  "loop_body key random_selector c =
     (let resized = (key = KEY_RESIZE \<or> key = key_of CHR ''r'');
          calls1 = (if resized then [New_game, Render] else []);
          slower = (key = key_of CHR ''-'' \<and> tick_ms c < max_tick_ms);
          tick1 = (if slower then tick_ms c * 2 else tick_ms c);
          calls2 = (if slower then [Timeout tick1] else []);
          faster = (key = key_of CHR ''+'' \<and> tick1 > min_tick_ms);
          tick2 = (if faster then tick1 sdiv 2 else tick1);
          calls3 = (if faster then [Timeout tick2] else []);
          wrap1 = (if key = key_of CHR ''w'' then \<not> wrapping c else wrapping c);
          running1 = (if key = key_of CHR ''p'' \<or> key = key_of CHR '' '' then \<not> running c
                      else running c);
          calls4 = (if key = key_of CHR ''b'' \<or> (running1 \<and> random_selector = 0)
                    then [Big_bang, Tick wrap1, Render] else []);
          calls5 = (if key = key_of CHR ''i'' \<or> (running1 \<and> random_selector = 1)
                    then [Invert, Render] else []);
          calls6 = (if key = key_of CHR ''t'' \<or> (running1 \<and> random_selector = 2)
                    then [Thanos, Render] else []);
          calls7 = (if running1 \<or> key = key_of CHR ''s'' then [Tick wrap1, Render] else [])
      in (\<lparr>tick_ms = tick2, running = running1, wrapping = wrap1\<rparr>,
          calls1 @ calls2 @ calls3 @ calls4 @ calls5 @ calls6 @ calls7,
          key = key_of CHR ''q''))"

definition next_control :: "control \<times> call list \<times> bool \<Rightarrow> control" where
  "next_control r = fst r"

definition calls_made :: "control \<times> call list \<times> bool \<Rightarrow> call list" where
  "calls_made r = fst (snd r)"

definition quits :: "control \<times> call list \<times> bool \<Rightarrow> bool" where
  "quits r = snd (snd r)"

text \<open>
  The loop on a finite sequence of inputs, each a key and a value of
  \<^verbatim>\<open>random_selector\<close>: the variables and the calls when the inputs are used up or
  \<^verbatim>\<open>q\<close> has been read.
\<close>

fun main_loop :: "(int \<times> int) list \<Rightarrow> control \<Rightarrow> control \<times> call list \<times> bool" where
  "main_loop [] c = (c, [], False)"
| "main_loop ((key, random_selector) # rest) c =
     (case loop_body key random_selector c of
        (c', calls, quit) \<Rightarrow>
          if quit then (c', calls, True)
          else (case main_loop rest c' of (c'', calls', quit') \<Rightarrow> (c'', calls @ calls', quit')))"

text \<open>
  \<^verbatim>\<open>main\<close> before the loop: \<^verbatim>\<open>timeout(tick_ms); auto game = new_game(); game->render();\<close>
\<close>

definition main :: "(int \<times> int) list \<Rightarrow> control \<times> call list \<times> bool" where
  "main inputs =
     (case main_loop inputs initial_control of
        (c, calls, quit) \<Rightarrow> (c, [Timeout min_tick_ms, New_game, Render] @ calls, quit))"

text \<open>What each call does to the game, the screen and the waiting time of \<^verbatim>\<open>getch\<close>.\<close>

record world =
  game :: game_of_life
  screen :: "glyph list list"
  input_timeout :: int

fun exec_call :: "'e rng \<Rightarrow> environment \<Rightarrow> call \<Rightarrow> world \<Rightarrow> fault + world" where
  "exec_call R env New_game w = seq (new_game R env) (\<lambda>G. Inr (w\<lparr>game := G\<rparr>))"
| "exec_call R env Render w = seq (render (game w)) (\<lambda>lines. Inr (w\<lparr>screen := lines\<rparr>))"
| "exec_call R env (Timeout t) w = Inr (w\<lparr>input_timeout := t\<rparr>)"
| "exec_call R env Big_bang w = seq (game_big_bang R (game w)) (\<lambda>G. Inr (w\<lparr>game := G\<rparr>))"
| "exec_call R env Invert w = seq (game_invert (game w)) (\<lambda>G. Inr (w\<lparr>game := G\<rparr>))"
| "exec_call R env Thanos w = seq (game_thanos R (game w)) (\<lambda>G. Inr (w\<lparr>game := G\<rparr>))"
| "exec_call R env (Tick wr) w = seq (tick (game w) wr) (\<lambda>G. Inr (w\<lparr>game := G\<rparr>))"

fun exec_calls :: "'e rng \<Rightarrow> environment \<Rightarrow> call list \<Rightarrow> world \<Rightarrow> fault + world" where
  "exec_calls R env [] w = Inr w"
| "exec_calls R env (c # cs) w = seq (exec_call R env c w) (exec_calls R env cs)"

text \<open>
  Readings of a list of calls: whether a call is a generation transition, whether every
  occurrence of a call \<open>p\<close> is immediately followed by a transition and then a render,
  and whether every occurrence is immediately followed by a render.
\<close>

fun is_tick :: "call \<Rightarrow> bool" where
  "is_tick (Tick wr) = True"
| "is_tick c = False"

fun followed_by_tick_render :: "call \<Rightarrow> call list \<Rightarrow> bool" where
  "followed_by_tick_render p [] = True"
| "followed_by_tick_render p (c # cs) =
     ((if c = p then (case cs of t # r # rest \<Rightarrow> is_tick t \<and> r = Render | _ \<Rightarrow> False) else True)
      \<and> followed_by_tick_render p cs)"

fun followed_by_render :: "call \<Rightarrow> call list \<Rightarrow> bool" where
  "followed_by_render p [] = True"
| "followed_by_render p (c # cs) =
     ((if c = p then (case cs of r # rest \<Rightarrow> r = Render | _ \<Rightarrow> False) else True)
      \<and> followed_by_render p cs)"

text \<open>A paused state of the loop.\<close>

definition paused_control :: control where
  "paused_control = \<lparr>tick_ms = min_tick_ms, running = False, wrapping = True\<rparr>"

text \<open>The values \<^verbatim>\<open>tick_ms\<close> can take: the powers of two from 8 to 1024.\<close>

definition speed_ok :: "int \<Rightarrow> bool" where
  "speed_ok t = (t \<in> set [8, 16, 32, 64, 128, 256, 512, 1024])"

text \<open>A paused game on the grid \<open>lone_cell\<close>, its back grid holding an older generation.\<close>

definition paused_world :: world where
  "paused_world =
     \<lparr>game = \<lparr>buffer = \<lparr>first = True, grid_a = lone_cell,
                        grid_b = \<lparr>width = 3, height = 2, data = replicate 6 True\<rparr>\<rparr>\<rparr>,
      screen = [], input_timeout = 8\<rparr>"

section \<open>Properties\<close>

subsection \<open>Checked arithmetic\<close>

lemma checked_ok: "INT_MIN \<le> v \<Longrightarrow> v \<le> INT_MAX \<Longrightarrow> checked v = Inr v"
  by (simp add: checked_def int_ok_def)

lemma crem_pos: "0 \<le> a \<Longrightarrow> 0 < b \<Longrightarrow> crem a b = Inr (a mod b)"
  by (simp add: crem_def INT_MIN_def smod_mod_positive)

lemma cdiv_pos: "0 \<le> a \<Longrightarrow> 0 < b \<Longrightarrow> cdiv a b = Inr (a div b)"
  by (simp add: cdiv_def INT_MIN_def signed_divide_int_def sgn_if)

subsection \<open>The accessor\<close>

lemma cell_bound:
  fixes w h c r :: int
  assumes "0 \<le> c" "c < w" "0 \<le> r" "r < h"
  shows "0 \<le> r * w" and "r * w \<le> w * h" and "0 \<le> c + r * w" and "c + r * w < w * h"
proof -
  have w: "0 < w" using assms by linarith
  show "0 \<le> r * w" using assms w by simp
  then show "0 \<le> c + r * w" using assms by linarith
  have "(r + 1) * w \<le> h * w"
    using assms w by (intro mult_right_mono) auto
  then have le: "r * w + w \<le> w * h"
    by (simp add: algebra_simps)
  then show "r * w \<le> w * h" using w by linarith
  show "c + r * w < w * h" using le assms by linarith
qed

lemma index_expr_wrapped:
  assumes "0 < width g" "0 < height g" "width g * height g \<le> INT_MAX"
    and "- width g \<le> x" "x + width g \<le> INT_MAX"
    and "- height g \<le> y" "y + height g \<le> INT_MAX"
  shows "index_expr g x y = Inr (x mod width g + (y mod height g) * width g)"
proof -
  let ?w = "width g" and ?h = "height g"
  have c: "0 \<le> x mod ?w" "x mod ?w < ?w" "0 \<le> y mod ?h" "y mod ?h < ?h"
    using assms by simp_all
  note b = cell_bound [OF c]
  have 1: "cadd x ?w = Inr (x + ?w)"
    using assms unfolding cadd_def by (intro checked_ok) (simp_all add: INT_MIN_def)
  have 2: "crem (x + ?w) ?w = Inr (x mod ?w)"
    using assms by (simp add: crem_pos)
  have 3: "cadd y ?h = Inr (y + ?h)"
    using assms unfolding cadd_def by (intro checked_ok) (simp_all add: INT_MIN_def)
  have 4: "crem (y + ?h) ?h = Inr (y mod ?h)"
    using assms by (simp add: crem_pos)
  have lo: "INT_MIN \<le> 0"
    by (simp add: INT_MIN_def)
  have 5: "cmul (y mod ?h) ?w = Inr ((y mod ?h) * ?w)"
    unfolding cmul_def using b(1,2) assms(3) lo by (intro checked_ok) linarith+
  have 6: "cadd (x mod ?w) ((y mod ?h) * ?w) = Inr (x mod ?w + (y mod ?h) * ?w)"
    unfolding cadd_def using b(3,4) assms(3) lo by (intro checked_ok) linarith+
  show ?thesis
    by (simp add: index_expr_def 1 2 3 4 5 6)
qed

lemma cell_index_wrapped:
  assumes "grid_wf g" "0 < width g" "0 < height g"
    and "- width g \<le> x" "x + width g \<le> INT_MAX"
    and "- height g \<le> y" "y + height g \<le> INT_MAX"
  shows "cell_index g x y = Inr (nat (x mod width g + (y mod height g) * width g))"
    and "nat (x mod width g + (y mod height g) * width g) < length (data g)"
proof -
  let ?w = "width g" and ?h = "height g"
  let ?i = "x mod ?w + (y mod ?h) * ?w"
  have c: "0 \<le> x mod ?w" "x mod ?w < ?w" "0 \<le> y mod ?h" "y mod ?h < ?h"
    using assms by simp_all
  note b = cell_bound [OF c]
  have wf: "?w * ?h \<le> INT_MAX" "length (data g) = nat (?w * ?h)"
    using assms(1) by (simp_all add: grid_wf_def)
  have ie: "index_expr g x y = Inr ?i"
    using assms wf by (intro index_expr_wrapped) simp_all
  have ib: "in_bounds g ?i"
    using b wf by (simp add: in_bounds_def)
  show "cell_index g x y = Inr (nat ?i)"
    by (simp add: cell_index_def ie ib)
  show "nat ?i < length (data g)"
    using b wf by simp
qed

text \<open>
  C8, as the spec states it: every pair of integer coordinates resolves to a cell of
  the array. The subscript adds the width once before taking the truncating remainder,
  so a column left of \<open>- width\<close> gives a negative remainder: on a 3 by 1 grid the
  coordinates \<open>(-4, 0)\<close> give the subscript \<open>-1\<close>, outside the array.
\<close>

theorem accessor_out_of_bounds_counterexample:
  "grid_wf \<lparr>width = 3, height = 1, data = [False, False, False]\<rparr> \<and>
   index_expr \<lparr>width = 3, height = 1, data = [False, False, False]\<rparr> (- 4) 0 = Inr (- 1) \<and>
   \<not> in_bounds \<lparr>width = 3, height = 1, data = [False, False, False]\<rparr> (- 1) \<and>
   cell_index \<lparr>width = 3, height = 1, data = [False, False, False]\<rparr> (- 4) 0
     = Inl Undefined_behaviour"
  by (simp add: grid_wf_def int_ok_def INT_MAX_def INT_MIN_def cell_index_def index_expr_def
      cadd_def cmul_def crem_def checked_def in_bounds_def signed_modulo_int_def)

text \<open>
  C8, amended: on a grid with positive width and height as the constructor leaves it,
  every \<open>x \<ge> - width\<close> and \<open>y \<ge> - height\<close> for which \<open>x + width\<close> and \<open>y + height\<close> are
  still \<^verbatim>\<open>int\<close>s resolves to the index \<open>x mod width + (y mod height) * width\<close>, which lies
  inside the array of \<open>width * height\<close> cells.
\<close>

theorem accessor_in_bounds:
  assumes "grid_wf g" "0 < width g" "0 < height g"
    and "- width g \<le> x" "x + width g \<le> INT_MAX"
    and "- height g \<le> y" "y + height g \<le> INT_MAX"
  shows "\<exists>i. cell_index g x y = Inr i \<and> i < length (data g) \<and>
             length (data g) = nat (width g * height g) \<and>
             int i = x mod width g + (y mod height g) * width g"
proof -
  let ?i = "x mod width g + (y mod height g) * width g"
  have c: "0 \<le> x mod width g" "x mod width g < width g"
          "0 \<le> y mod height g" "y mod height g < height g"
    using assms by simp_all
  have "0 \<le> ?i" using cell_bound(3) [OF c] .
  moreover have "length (data g) = nat (width g * height g)"
    using assms(1) by (simp add: grid_wf_def)
  ultimately show ?thesis
    using cell_index_wrapped [OF assms] by simp
qed

theorem accessor_in_bounds_witness:
  "\<exists>i. cell_index \<lparr>width = 3, height = 2, data = [False, True, False, True, True, False]\<rparr> (- 1) 3
         = Inr i \<and> i < 6 \<and> int i = 5"
  using accessor_in_bounds
    [of "\<lparr>width = 3, height = 2, data = [False, True, False, True, True, False]\<rparr>" "- 1" 3]
  by (simp add: grid_wf_def int_ok_def INT_MAX_def INT_MIN_def)

subsection \<open>Allocation\<close>

lemma new_grid_ok:
  assumes "0 \<le> w * h" "w * h \<le> INT_MAX"
  shows "new_grid mem w h = Inr \<lparr>width = w, height = h, data = map mem [0..<nat (w * h)]\<rparr>"
proof -
  have "cmul w h = Inr (w * h)"
    unfolding cmul_def using assms by (intro checked_ok) (simp_all add: INT_MIN_def)
  then show ?thesis
    using assms by (simp add: new_grid_def)
qed

lemma new_grid_wf:
  assumes "int_ok w" "int_ok h" "new_grid mem w h = Inr g"
  shows "grid_wf g"
  using assms
  by (auto simp add: new_grid_def seq_eq_Inr cmul_def checked_def int_ok_def grid_wf_def
      split: if_splits)

text \<open>
  C4, as the spec states it: a fresh grid has every cell dead. The constructor allocates
  with \<^verbatim>\<open>new bool[width * height]\<close> and writes nothing: the cells keep the content of
  the storage they were given. On storage holding ones, the 1 by 1 grid has its cell alive.
\<close>

theorem new_grid_not_cleared_counterexample:
  "new_grid mem_ones 1 1 = Inr \<lparr>width = 1, height = 1, data = [True]\<rparr> \<and>
   grid_get \<lparr>width = 1, height = 1, data = [True]\<rparr> 0 0 = Inr True"
  by (simp add: new_grid_def cmul_def checked_def int_ok_def INT_MAX_def INT_MIN_def
      mem_ones_def grid_get_def cell_index_def index_expr_def cadd_def crem_def in_bounds_def
      signed_modulo_int_def)

text \<open>
  C4, amended: for every positive width and height whose product is an \<^verbatim>\<open>int\<close>, the
  constructor allocates exactly \<open>width * height\<close> cells and records the two dimensions;
  it does not initialise the cells, each of which holds the prior content of its storage
  (dead only if that storage happened to be zero).
\<close>

theorem new_grid_allocates:
  assumes "0 < w" "0 < h" "w * h \<le> INT_MAX"
  shows "\<exists>g. new_grid mem w h = Inr g \<and> width g = w \<and> height g = h \<and>
             length (data g) = nat (w * h) \<and>
             (\<forall>k. k < nat (w * h) \<longrightarrow> data g ! k = mem k)"
proof -
  have "0 \<le> w * h" using assms by simp
  then show ?thesis
    using assms by (simp add: new_grid_ok)
qed

theorem new_grid_allocates_witness:
  "\<exists>g. new_grid mem_ones 2 3 = Inr g \<and> width g = 2 \<and> height g = 3 \<and>
        length (data g) = 6 \<and> data g ! 4 = True"
  using new_grid_allocates [of 2 3 mem_ones]
  by (auto simp add: INT_MAX_def mem_ones_def)

subsection \<open>The perturbation loops\<close>

lemma cmul_wf: "grid_wf g \<Longrightarrow> cmul (width g) (height g) = Inr (width g * height g)"
  unfolding cmul_def by (intro checked_ok) (simp_all add: grid_wf_def INT_MIN_def)

lemma big_bang_loop_cells:
  "0 \<le> i \<Longrightarrow> i \<le> n \<Longrightarrow> nat n \<le> length d \<Longrightarrow>
   big_bang_loop R n i e d =
     Inr (take (nat i) d @ big_bang_cells R e (take (nat n - nat i) (drop (nat i) d)) @ drop (nat n) d)"
proof (induction R n i e d rule: big_bang_loop.induct)
  case (1 R n i e d)
  show ?case
  proof (cases "i < n")
    case False
    with "1.prems" have "i = n" by simp
    then show ?thesis by (subst big_bang_loop.simps) simp
  next
    case True
    define k where "k = nat i"
    define m where "m = nat n"
    have km: "k < m" "m \<le> length d" "nat (i + 1) = Suc k" "0 \<le> i + 1" "i + 1 \<le> n"
      using True "1.prems" by (simp_all add: k_def m_def nat_add_distrib)
    have inb: "0 \<le> i \<and> nat i < length d"
      using km "1.prems" by (simp add: k_def)
    have dr: "drop k d = d ! k # drop (Suc k) d"
      using km by (simp add: Cons_nth_drop_Suc)
    have tk: "take (m - k) (drop k d) = d ! k # take (m - Suc k) (drop (Suc k) d)"
      using km by (subst dr) (simp add: take_Cons')
    show ?thesis
    proof (cases "d ! k")
      case alive: True
      have "big_bang_loop R n i e d = big_bang_loop R n (i + 1) e d"
        using True inb alive by (subst big_bang_loop.simps) (simp add: k_def)
      also have "\<dots> = Inr (take (Suc k) d @ big_bang_cells R e (take (m - Suc k) (drop (Suc k) d)) @ drop m d)"
        using "1.IH"(2) [OF True inb _ km(4,5) "1.prems"(3)] alive
        by (simp add: k_def [symmetric] m_def [symmetric] km)
      finally show ?thesis
        using km alive by (simp add: k_def [symmetric] m_def [symmetric] tk take_Suc_conv_app_nth)
    next
      case dead: False
      obtain v e' where u: "uniform R big_bang_lo big_bang_hi e = (v, e')"
        by (cases "uniform R big_bang_lo big_bang_hi e")
      let ?d = "d[k := big_bang_alive v]"
      have len: "nat n \<le> length ?d" using "1.prems" by simp
      have "big_bang_loop R n i e d = big_bang_loop R n (i + 1) e' ?d"
        using True inb dead u by (subst big_bang_loop.simps) (simp add: k_def)
      also have "\<dots> = Inr (take (Suc k) ?d @ big_bang_cells R e' (take (m - Suc k) (drop (Suc k) ?d)) @ drop m ?d)"
        using "1.IH"(1) [OF True inb _ u [symmetric] km(4,5)] dead len
        by (simp add: k_def [symmetric] m_def [symmetric] km)
      finally show ?thesis
        using km dead u by (simp add: k_def [symmetric] m_def [symmetric] tk take_Suc_conv_app_nth)
    qed
  qed
qed

lemma thanos_loop_cells:
  "0 \<le> i \<Longrightarrow> i \<le> n \<Longrightarrow> nat n \<le> length d \<Longrightarrow>
   thanos_loop R n i e d =
     Inr (take (nat i) d @ thanos_cells R e (take (nat n - nat i) (drop (nat i) d)) @ drop (nat n) d)"
proof (induction R n i e d rule: thanos_loop.induct)
  case (1 R n i e d)
  show ?case
  proof (cases "i < n")
    case False
    with "1.prems" have "i = n" by simp
    then show ?thesis by (subst thanos_loop.simps) simp
  next
    case True
    define k where "k = nat i"
    define m where "m = nat n"
    have km: "k < m" "m \<le> length d" "nat (i + 1) = Suc k" "0 \<le> i + 1" "i + 1 \<le> n"
      using True "1.prems" by (simp_all add: k_def m_def nat_add_distrib)
    have inb: "0 \<le> i \<and> nat i < length d"
      using km "1.prems" by (simp add: k_def)
    have dr: "drop k d = d ! k # drop (Suc k) d"
      using km by (simp add: Cons_nth_drop_Suc)
    have tk: "take (m - k) (drop k d) = d ! k # take (m - Suc k) (drop (Suc k) d)"
      using km by (subst dr) (simp add: take_Cons')
    show ?thesis
    proof (cases "\<not> d ! k")
      case alive: True
      have "thanos_loop R n i e d = thanos_loop R n (i + 1) e d"
        using True inb alive by (subst thanos_loop.simps) (simp add: k_def)
      also have "\<dots> = Inr (take (Suc k) d @ thanos_cells R e (take (m - Suc k) (drop (Suc k) d)) @ drop m d)"
        using "1.IH"(2) [OF True inb _ km(4,5) "1.prems"(3)] alive
        by (simp add: k_def [symmetric] m_def [symmetric] km)
      finally show ?thesis
        using km alive by (simp add: k_def [symmetric] m_def [symmetric] tk take_Suc_conv_app_nth)
    next
      case dead: False
      obtain v e' where u: "uniform R thanos_lo thanos_hi e = (v, e')"
        by (cases "uniform R thanos_lo thanos_hi e")
      let ?d = "d[k := thanos_alive v]"
      have len: "nat n \<le> length ?d" using "1.prems" by simp
      have "thanos_loop R n i e d = thanos_loop R n (i + 1) e' ?d"
        using True inb dead u by (subst thanos_loop.simps) (simp add: k_def)
      also have "\<dots> = Inr (take (Suc k) ?d @ thanos_cells R e' (take (m - Suc k) (drop (Suc k) ?d)) @ drop m ?d)"
        using "1.IH"(1) [OF True inb _ u [symmetric] km(4,5)] dead len
        by (simp add: k_def [symmetric] m_def [symmetric] km)
      finally show ?thesis
        using km dead u by (simp add: k_def [symmetric] m_def [symmetric] tk take_Suc_conv_app_nth)
    qed
  qed
qed


lemma big_bang_cells_length [simp]: "length (big_bang_cells R e cs) = length cs"
  by (induction cs arbitrary: e) (simp_all split: prod.splits)

lemma thanos_cells_length [simp]: "length (thanos_cells R e cs) = length cs"
  by (induction cs arbitrary: e) (simp_all split: prod.splits)

lemma big_bang_cells_nth:
  "k < length cs \<Longrightarrow>
   big_bang_cells R e cs ! k =
     (cs ! k \<or> big_bang_alive (draw_at R big_bang_lo big_bang_hi e (dead_before cs k)))"
proof (induction cs arbitrary: e k)
  case Nil
  then show ?case by simp
next
  case (Cons c cs)
  show ?case
  proof (cases k)
    case 0
    then show ?thesis
      by (simp add: dead_before_def split: prod.splits)
  next
    case (Suc j)
    with Cons.prems have j: "j < length cs" by simp
    show ?thesis
      using Cons.IH [OF j] Suc by (simp add: dead_before_def split: prod.splits)
  qed
qed

lemma thanos_cells_nth:
  "k < length cs \<Longrightarrow>
   thanos_cells R e cs ! k =
     (cs ! k \<and> thanos_alive (draw_at R thanos_lo thanos_hi e (live_before cs k)))"
proof (induction cs arbitrary: e k)
  case Nil
  then show ?case by simp
next
  case (Cons c cs)
  show ?case
  proof (cases k)
    case 0
    then show ?thesis
      by (simp add: live_before_def split: prod.splits)
  next
    case (Suc j)
    with Cons.prems have j: "j < length cs" by simp
    show ?thesis
      using Cons.IH [OF j] Suc by (simp add: live_before_def split: prod.splits)
  qed
qed

lemma count_live_mono:
  "length xs = length ys \<Longrightarrow> (\<And>k. k < length xs \<Longrightarrow> xs ! k \<Longrightarrow> ys ! k) \<Longrightarrow>
   length (filter (\<lambda>c. c) xs) \<le> length (filter (\<lambda>c. c) ys)"
proof (induction xs ys rule: list_induct2)
  case Nil
  then show ?case by simp
next
  case (Cons x xs y ys)
  have hd: "x \<Longrightarrow> y" using Cons.prems [of 0] by simp
  have "\<And>k. k < length xs \<Longrightarrow> xs ! k \<Longrightarrow> ys ! k"
    using Cons.prems [of "Suc k" for k] by simp
  then have "length (filter (\<lambda>c. c) xs) \<le> length (filter (\<lambda>c. c) ys)"
    by (rule Cons.IH)
  then show ?case using hd by auto
qed

lemma big_bang_wf:
  assumes "grid_wf g"
  shows "big_bang R g = Inr (g\<lparr>data := big_bang_cells R (default_engine R) (data g)\<rparr>)"
proof -
  have n: "0 \<le> width g * height g" "nat (width g * height g) = length (data g)"
    using assms by (simp_all add: grid_wf_def)
  have "big_bang_loop R (width g * height g) 0 (default_engine R) (data g)
          = Inr (big_bang_cells R (default_engine R) (data g))"
    using n by (subst big_bang_loop_cells) simp_all
  then show ?thesis
    by (simp add: big_bang_def cmul_wf [OF assms])
qed

lemma thanos_wf:
  assumes "grid_wf g"
  shows "thanos R g = Inr (g\<lparr>data := thanos_cells R (default_engine R) (data g)\<rparr>)"
proof -
  have n: "0 \<le> width g * height g" "nat (width g * height g) = length (data g)"
    using assms by (simp_all add: grid_wf_def)
  have "thanos_loop R (width g * height g) 0 (default_engine R) (data g)
          = Inr (thanos_cells R (default_engine R) (data g))"
    using n by (subst thanos_loop_cells) simp_all
  then show ?thesis
    by (simp add: thanos_def cmul_wf [OF assms])
qed

text \<open>
  C9: on every grid as the constructor leaves it, \<open>thanos\<close> returns a grid of the same
  shape whose number of live cells is at most the number before, and in which every
  cell that was dead is still dead.
\<close>

theorem thanos_non_increasing:
  assumes "grid_wf g"
  shows "\<exists>g'. thanos R g = Inr g' \<and> width g' = width g \<and> height g' = height g \<and>
              length (data g') = length (data g) \<and>
              live_count g' \<le> live_count g \<and>
              (\<forall>k. k < length (data g) \<and> \<not> data g ! k \<longrightarrow> \<not> data g' ! k)"
proof -
  let ?d = "thanos_cells R (default_engine R) (data g)"
  have "length (filter (\<lambda>c. c) ?d) \<le> length (filter (\<lambda>c. c) (data g))"
    by (rule count_live_mono) (simp_all add: thanos_cells_nth)
  then show ?thesis
    by (simp add: thanos_wf [OF assms] live_count_def thanos_cells_nth)
qed

theorem thanos_non_increasing_witness:
  "\<exists>g'. thanos lehmer \<lparr>width = 3, height = 2, data = [True, True, False, True, True, True]\<rparr>
           = Inr g' \<and> live_count g' \<le> 5 \<and> \<not> data g' ! 2"
proof -
  let ?g = "\<lparr>width = 3, height = 2, data = [True, True, False, True, True, True]\<rparr>"
  have wf: "grid_wf ?g"
    by (simp add: grid_wf_def int_ok_def INT_MAX_def INT_MIN_def)
  from thanos_non_increasing [OF wf, of lehmer]
  obtain g' where g: "thanos lehmer ?g = Inr g'" "live_count g' \<le> live_count ?g"
    "\<forall>k. k < length (data ?g) \<and> \<not> data ?g ! k \<longrightarrow> \<not> data g' ! k"
    by blast
  have "live_count g' \<le> 5"
    using g(2) by (simp add: live_count_def)
  moreover have "\<not> data g' ! 2"
    using g(3) [rule_format, of 2] by simp
  ultimately show ?thesis
    using g(1) by blast
qed

subsection \<open>One generation\<close>

lemma grid_get_wrapped:
  assumes "grid_wf g" "0 < width g" "0 < height g"
    and "- width g \<le> x" "x + width g \<le> INT_MAX"
    and "- height g \<le> y" "y + height g \<le> INT_MAX"
  shows "grid_get g x y = Inr (cell_at g (x mod width g) (y mod height g))"
  by (simp add: grid_get_def cell_index_wrapped(1) [OF assms] cell_at_def)

lemma grid_set_wrapped:
  assumes "grid_wf g" "0 < width g" "0 < height g"
    and "- width g \<le> x" "x + width g \<le> INT_MAX"
    and "- height g \<le> y" "y + height g \<le> INT_MAX"
  shows "grid_set g x y v =
           Inr (g\<lparr>data := (data g)[nat (x mod width g + (y mod height g) * width g) := v]\<rparr>)"
  by (simp add: grid_set_def cell_index_wrapped(1) [OF assms])

lemma neighbour_life:
  assumes r: "grid_ready g"
    and xy: "0 \<le> x" "x < width g" "0 \<le> y" "y < height g"
    and d: "- 1 \<le> dx" "dx \<le> 1" "- 1 \<le> dy" "dy \<le> 1"
    and c: "c \<longleftrightarrow> wrap \<or> (0 \<le> x + dx \<and> x + dx < width g \<and> 0 \<le> y + dy \<and> y + dy < height g)"
  shows "neighbour g c x dx y dy = Inr (life_neighbour g wrap (x + dx) (y + dy))"
proof (cases c)
  case False
  then show ?thesis
    using c by (auto simp add: neighbour_def life_neighbour_def)
next
  case True
  have wf: "grid_wf g" "0 < width g" "0 < height g"
    and dbl: "width g + width g \<le> INT_MAX" "height g + height g \<le> INT_MAX"
    using r by (simp_all add: grid_ready_def)
  have lo: "INT_MIN \<le> - 1" by (simp add: INT_MIN_def)
  have ax: "cadd x dx = Inr (x + dx)"
    unfolding cadd_def using xy d dbl lo by (intro checked_ok) linarith+
  have ay: "cadd y dy = Inr (y + dy)"
    unfolding cadd_def using xy d dbl lo by (intro checked_ok) linarith+
  have get: "grid_get g (x + dx) (y + dy)
               = Inr (cell_at g ((x + dx) mod width g) ((y + dy) mod height g))"
    using xy d dbl by (intro grid_get_wrapped wf) linarith+
  show ?thesis
  proof (cases wrap)
    case True
    then show ?thesis
      using \<open>c\<close> by (simp add: neighbour_def ax ay get life_neighbour_def)
  next
    case False
    with c \<open>c\<close> have inr: "0 \<le> x + dx" "x + dx < width g" "0 \<le> y + dy" "y + dy < height g"
      by simp_all
    then show ?thesis
      using \<open>c\<close> False by (simp add: neighbour_def ax ay get life_neighbour_def)
  qed
qed

lemma neighbours_life:
  assumes r: "grid_ready g"
    and xy: "0 \<le> x" "x < width g" "0 \<le> y" "y < height g"
  shows "neighbours g wrap x y = Inr (life_count g wrap x y)"
proof -
  have lo: "INT_MIN \<le> - 1" by (simp add: INT_MIN_def)
  have dims: "0 < width g" "0 < height g" "width g \<le> INT_MAX" "height g \<le> INT_MAX"
    using r by (simp_all add: grid_ready_def grid_wf_def int_ok_def)
  have "checked (width g + - 1) = Inr (width g + - 1)"
    using dims lo by (intro checked_ok) linarith+
  then have lx: "cadd (width g) (- 1) = Inr (width g - 1)"
    by (simp add: cadd_def)
  have "checked (height g + - 1) = Inr (height g + - 1)"
    using dims lo by (intro checked_ok) linarith+
  then have ly: "cadd (height g) (- 1) = Inr (height g - 1)"
    by (simp add: cadd_def)
  note nb = neighbour_life [OF r xy, where wrap = wrap]
  have 1: "neighbour g ((wrap \<or> x \<noteq> 0) \<and> (wrap \<or> y \<noteq> 0)) x (- 1) y (- 1)
             = Inr (life_neighbour g wrap (x + - 1) (y + - 1))"
    using xy by (intro nb) auto
  have 2: "neighbour g (wrap \<or> x \<noteq> 0) x (- 1) y 0 = Inr (life_neighbour g wrap (x + - 1) (y + 0))"
    using xy by (intro nb) auto
  have 3: "neighbour g ((wrap \<or> x \<noteq> 0) \<and> (wrap \<or> y \<noteq> height g - 1)) x (- 1) y 1
             = Inr (life_neighbour g wrap (x + - 1) (y + 1))"
    using xy by (intro nb) auto
  have 4: "neighbour g (wrap \<or> y \<noteq> 0) x 0 y (- 1) = Inr (life_neighbour g wrap (x + 0) (y + - 1))"
    using xy by (intro nb) auto
  have 5: "neighbour g (wrap \<or> y \<noteq> height g - 1) x 0 y 1
             = Inr (life_neighbour g wrap (x + 0) (y + 1))"
    using xy by (intro nb) auto
  have 6: "neighbour g ((wrap \<or> x \<noteq> width g - 1) \<and> (wrap \<or> y \<noteq> 0)) x 1 y (- 1)
             = Inr (life_neighbour g wrap (x + 1) (y + - 1))"
    using xy by (intro nb) auto
  have 7: "neighbour g (wrap \<or> x \<noteq> width g - 1) x 1 y 0
             = Inr (life_neighbour g wrap (x + 1) (y + 0))"
    using xy by (intro nb) auto
  have 8: "neighbour g ((wrap \<or> x \<noteq> width g - 1) \<and> (wrap \<or> y \<noteq> height g - 1)) x 1 y 1
             = Inr (life_neighbour g wrap (x + 1) (y + 1))"
    using xy by (intro nb) auto
  show ?thesis
    by (simp add: neighbours_def lx ly 1 2 3 4 5 6 7 8 life_count_def surrounding_def Let_def)
qed

lemma next_cell_life:
  assumes r: "grid_ready g"
    and xy: "0 \<le> x" "x < width g" "0 \<le> y" "y < height g"
  shows "next_cell g wrap x y = Inr (life_rule g wrap x y)"
proof -
  have wf: "grid_wf g" "0 < width g" "0 < height g"
    and dbl: "width g + width g \<le> INT_MAX" "height g + height g \<le> INT_MAX"
    using r by (simp_all add: grid_ready_def)
  have "grid_get g x y = Inr (cell_at g (x mod width g) (y mod height g))"
    using xy dbl by (intro grid_get_wrapped wf) linarith+
  then have get: "grid_get g x y = Inr (cell_at g x y)"
    using xy by simp
  show ?thesis
    by (auto simp add: next_cell_def neighbours_life [OF r xy] get life_rule_def)
qed


lemma index_inj:
  fixes w x y x' y' :: int
  assumes "0 \<le> x" "x < w" "0 \<le> x'" "x' < w" "x + y * w = x' + y' * w"
  shows "x = x' \<and> y = y'"
proof -
  have "(x + y * w) mod w = (x' + y' * w) mod w"
    using assms(5) by simp
  then have x: "x = x'"
    using assms(1-4) by simp
  then have "y * w = y' * w"
    using assms(5) by simp
  then have "y = y'"
    using assms(1,2) by simp
  with x show ?thesis by simp
qed

lemma cell_at_update:
  assumes "0 \<le> x" "x < width out" "0 \<le> y" "y < height out"
    and "0 \<le> x'" "x' < width out" "0 \<le> y'" "y' < height out"
    and len: "length (data out) = nat (width out * height out)"
  shows "cell_at (out\<lparr>data := (data out)[nat (x + y * width out) := v]\<rparr>) x' y'
           = (if x' = x \<and> y' = y then v else cell_at out x' y')"
proof -
  let ?w = "width out"
  note b = cell_bound [OF assms(1-4)]
  note b' = cell_bound [OF assms(5-8)]
  have lt: "nat (x + y * ?w) < length (data out)"
    using b len by simp
  show ?thesis
  proof (cases "x' = x \<and> y' = y")
    case True
    then show ?thesis using lt by (simp add: cell_at_def)
  next
    case False
    then have "x' + y' * ?w \<noteq> x + y * ?w"
      using index_inj [OF assms(5,6,1,2)] by blast
    then have "nat (x' + y' * ?w) \<noteq> nat (x + y * ?w)"
      using b(3) b'(3) by simp
    then show ?thesis using False by (auto simp add: cell_at_def)
  qed
qed

lemma columns_loop_row:
  assumes "grid_ready g" "grid_wf out" "width out = width g" "height out = height g"
    and "0 \<le> y" "y < height g" "0 \<le> x" "x \<le> width g"
  shows "\<exists>out'. columns_loop g wrap y x out = Inr out' \<and>
           grid_wf out' \<and> width out' = width g \<and> height out' = height g \<and>
           (\<forall>x' y'. 0 \<le> x' \<and> x' < width g \<and> 0 \<le> y' \<and> y' < height g \<longrightarrow>
              cell_at out' x' y' =
                (if y' = y \<and> x \<le> x' then life_rule g wrap x' y' else cell_at out x' y'))"
  using assms
proof (induction g wrap y x out rule: columns_loop.induct)
  case (1 g wrap y x out)
  show ?case
  proof (cases "x = width g")
    case True
    then show ?thesis
      using "1.prems" by (subst columns_loop.simps) auto
  next
    case False
    with "1.prems" have x: "0 \<le> x" "x < width g" by simp_all
    have y: "0 \<le> y" "y < height g" using "1.prems" by simp_all
    have dims: "0 < width g" "0 < height g"
      and dbl: "width g + width g \<le> INT_MAX" "height g + height g \<le> INT_MAX"
      using "1.prems"(1) by (simp_all add: grid_ready_def)
    have owf: "grid_wf out" "0 < width out" "0 < height out"
      using "1.prems" dims by simp_all
    let ?v = "life_rule g wrap x y"
    let ?out = "out\<lparr>data := (data out)[nat (x + y * width out) := ?v]\<rparr>"
    have nc: "next_cell g wrap x y = Inr ?v"
      using "1.prems"(1) x y by (rule next_cell_life)
    have "grid_set out x y ?v =
            Inr (out\<lparr>data := (data out)[nat (x mod width out + (y mod height out) * width out) := ?v]\<rparr>)"
      using x y dbl "1.prems"(3,4) by (intro grid_set_wrapped owf) linarith+
    then have gs: "grid_set out x y ?v = Inr ?out"
      using x y "1.prems"(3,4) by simp
    have lim: "x < INT_MAX" using x dbl dims by linarith
    have wf': "grid_wf ?out" "width ?out = width g" "height ?out = height g"
      using "1.prems"(2,3,4) by (simp_all add: grid_wf_def)
    have x1: "0 \<le> x + 1" "x + 1 \<le> width g" using x by simp_all
    from "1.IH" [OF False nc gs lim "1.prems"(1) wf' y x1]
    obtain out' where o: "columns_loop g wrap y (x + 1) ?out = Inr out'"
      "grid_wf out'" "width out' = width g" "height out' = height g"
      and cells: "\<forall>x' y'. 0 \<le> x' \<and> x' < width g \<and> 0 \<le> y' \<and> y' < height g \<longrightarrow>
              cell_at out' x' y' =
                (if y' = y \<and> x + 1 \<le> x' then life_rule g wrap x' y' else cell_at ?out x' y')"
      by blast
    have run: "columns_loop g wrap y x out = Inr out'"
      using False nc gs lim o(1) by (subst columns_loop.simps) simp
    have len: "length (data out) = nat (width out * height out)"
      using "1.prems"(2) by (simp add: grid_wf_def)
    have "cell_at out' x' y' =
            (if y' = y \<and> x \<le> x' then life_rule g wrap x' y' else cell_at out x' y')"
      if r: "0 \<le> x'" "x' < width g" "0 \<le> y'" "y' < height g" for x' y'
    proof -
      have upd: "cell_at ?out x' y' = (if x' = x \<and> y' = y then ?v else cell_at out x' y')"
        using x y r "1.prems"(3,4) len by (intro cell_at_update) simp_all
      show ?thesis
        using cells [rule_format, of x' y'] r upd by auto
    qed
    then show ?thesis
      using run o(2,3,4) by blast
  qed
qed

lemma rows_loop_grid:
  assumes "grid_ready g" "grid_wf out" "width out = width g" "height out = height g"
    and "0 \<le> y" "y \<le> height g"
  shows "\<exists>out'. rows_loop g wrap y out = Inr out' \<and>
           grid_wf out' \<and> width out' = width g \<and> height out' = height g \<and>
           (\<forall>x' y'. 0 \<le> x' \<and> x' < width g \<and> 0 \<le> y' \<and> y' < height g \<longrightarrow>
              cell_at out' x' y' =
                (if y \<le> y' then life_rule g wrap x' y' else cell_at out x' y'))"
  using assms
proof (induction g wrap y out rule: rows_loop.induct)
  case (1 g wrap y out)
  show ?case
  proof (cases "y = height g")
    case True
    then show ?thesis
      using "1.prems" by (subst rows_loop.simps) auto
  next
    case False
    with "1.prems" have y: "0 \<le> y" "y < height g" by simp_all
    have dims: "0 < width g" "0 < height g"
      and dbl: "width g + width g \<le> INT_MAX" "height g + height g \<le> INT_MAX"
      using "1.prems"(1) by (simp_all add: grid_ready_def)
    from columns_loop_row [OF "1.prems"(1-4) y, of 0 wrap] dims
    obtain row where c: "columns_loop g wrap y 0 out = Inr row"
      "grid_wf row" "width row = width g" "height row = height g"
      and rcells: "\<forall>x' y'. 0 \<le> x' \<and> x' < width g \<and> 0 \<le> y' \<and> y' < height g \<longrightarrow>
              cell_at row x' y' =
                (if y' = y \<and> 0 \<le> x' then life_rule g wrap x' y' else cell_at out x' y')"
      by auto
    have lim: "y < INT_MAX" using y dbl dims by linarith
    have y1: "0 \<le> y + 1" "y + 1 \<le> height g" using y by simp_all
    from "1.IH" [OF False c(1) lim "1.prems"(1) c(2,3,4) y1]
    obtain out' where o: "rows_loop g wrap (y + 1) row = Inr out'"
      "grid_wf out'" "width out' = width g" "height out' = height g"
      and cells: "\<forall>x' y'. 0 \<le> x' \<and> x' < width g \<and> 0 \<le> y' \<and> y' < height g \<longrightarrow>
              cell_at out' x' y' =
                (if y + 1 \<le> y' then life_rule g wrap x' y' else cell_at row x' y')"
      by blast
    have run: "rows_loop g wrap y out = Inr out'"
      using False c(1) lim o(1) by (subst rows_loop.simps) simp
    have "cell_at out' x' y' =
            (if y \<le> y' then life_rule g wrap x' y' else cell_at out x' y')"
      if r: "0 \<le> x'" "x' < width g" "0 \<le> y'" "y' < height g" for x' y'
      using cells [rule_format, of x' y'] rcells [rule_format, of x' y'] r by auto
    then show ?thesis
      using run o(2,3,4) by blast
  qed
qed

text \<open>
  C1: for grids \<open>g\<close> (\<^verbatim>\<open>in\<close>) and \<open>out\<close> of identical width and height, with at least
  one cell and sides whose doubles are \<^verbatim>\<open>int\<close>s, and for either value of \<open>wrap\<close>,
  \<open>next_generation\<close> returns the grid \<open>out\<close> with every cell \<open>(x, y)\<close> rewritten: the cell
  is alive iff the count of live neighbours over the eight surrounding positions of \<open>g\<close>
  is 3, or the cell of \<open>g\<close> is alive and the count is 2 (\<open>life_rule\<close>). With \<open>wrap\<close> the
  eight positions are taken modulo the width and the height; without it a position
  across a border contributes 0 (\<open>life_neighbour\<close>).
\<close>

theorem next_generation_rule:
  assumes "grid_ready g" "grid_wf out" "width out = width g" "height out = height g"
  shows "\<exists>out'. next_generation g out wrap = Inr out' \<and>
           width out' = width g \<and> height out' = height g \<and>
           length (data out') = nat (width g * height g) \<and>
           (\<forall>x y. 0 \<le> x \<and> x < width g \<and> 0 \<le> y \<and> y < height g \<longrightarrow>
              grid_get out' x y = Inr (life_rule g wrap x y))"
proof -
  have dims: "0 < width g" "0 < height g"
    and dbl: "width g + width g \<le> INT_MAX" "height g + height g \<le> INT_MAX"
    using assms(1) by (simp_all add: grid_ready_def)
  from rows_loop_grid [OF assms, of 0 wrap] dims
  obtain out' where o: "rows_loop g wrap 0 out = Inr out'"
    "grid_wf out'" "width out' = width g" "height out' = height g"
    and cells: "\<forall>x' y'. 0 \<le> x' \<and> x' < width g \<and> 0 \<le> y' \<and> y' < height g \<longrightarrow>
              cell_at out' x' y' =
                (if 0 \<le> y' then life_rule g wrap x' y' else cell_at out x' y')"
    by auto
  have run: "next_generation g out wrap = Inr out'"
    using assms(3,4) o(1) by (simp add: next_generation_def)
  have len: "length (data out') = nat (width g * height g)"
    using o(2,3,4) by (simp add: grid_wf_def)
  have "grid_get out' x y = Inr (life_rule g wrap x y)"
    if r: "0 \<le> x" "x < width g" "0 \<le> y" "y < height g" for x y
  proof -
    have owf: "grid_wf out'" "0 < width out'" "0 < height out'"
      using o dims by simp_all
    have "grid_get out' x y = Inr (cell_at out' (x mod width out') (y mod height out'))"
      using r dbl o(3,4) by (intro grid_get_wrapped owf) linarith+
    then show ?thesis
      using r o(3,4) cells [rule_format, of x y] by simp
  qed
  then show ?thesis
    using run o(3,4) len by blast
qed

theorem next_generation_rule_witness:
  "(\<exists>out'. next_generation row_pattern stale_grid True = Inr out' \<and> grid_get out' 0 0 = Inr True) \<and>
   (\<exists>out'. next_generation row_pattern stale_grid False = Inr out' \<and> grid_get out' 0 0 = Inr False)"
proof -
  have r: "grid_ready row_pattern"
    by (simp add: row_pattern_def grid_ready_def grid_wf_def int_ok_def INT_MAX_def INT_MIN_def)
  have s: "grid_wf stale_grid" "width stale_grid = width row_pattern"
    "height stale_grid = height row_pattern"
    by (simp_all add: row_pattern_def stale_grid_def grid_wf_def int_ok_def INT_MAX_def INT_MIN_def)
  have inside: "0 \<le> (0::int) \<and> 0 < width row_pattern \<and> 0 \<le> (0::int) \<and> 0 < height row_pattern"
    by (simp add: row_pattern_def)
  have wrapped: "life_rule row_pattern True 0 0"
    by (simp add: life_rule_def life_count_def surrounding_def life_neighbour_def cell_at_def
        row_pattern_def)
  have bounded: "\<not> life_rule row_pattern False 0 0"
    by (simp add: life_rule_def life_count_def surrounding_def life_neighbour_def cell_at_def
        row_pattern_def)
  from next_generation_rule [OF r s, of True] inside wrapped
  have 1: "\<exists>out'. next_generation row_pattern stale_grid True = Inr out' \<and> grid_get out' 0 0 = Inr True"
    by fastforce
  from next_generation_rule [OF r s, of False] inside bounded
  have 2: "\<exists>out'. next_generation row_pattern stale_grid False = Inr out' \<and> grid_get out' 0 0 = Inr False"
    by fastforce
  from 1 2 show ?thesis by simp
qed

subsection \<open>Constructing a game\<close>

lemma grid_set_shape:
  "grid_set g x y v = Inr g' \<Longrightarrow> width g' = width g \<and> height g' = height g \<and> length (data g') = length (data g)"
  by (auto simp add: grid_set_def seq_eq_Inr)

lemma randomize_loop_shape:
  "randomize_loop R w n i e g = Inr g' \<Longrightarrow>
   width g' = width g \<and> height g' = height g \<and> length (data g') = length (data g)"
proof (induction R w n i e g rule: randomize_loop.induct)
  case (1 R w n i e g)
  show ?case
  proof (cases "i = n")
    case True
    with "1.prems" show ?thesis
      by (subst (asm) randomize_loop.simps) simp
  next
    case False
    obtain v e' where u: "uniform R 0 frequency e = (v, e')"
      by (cases "uniform R 0 frequency e")
    from "1.prems" False u obtain x y g1 where
      s: "crem i w = Inr x" "cdiv i w = Inr y" "grid_set g x y (initial_alive v) = Inr g1"
        "i < INT_MAX" "randomize_loop R w n (i + 1) e' g1 = Inr g'"
      by (subst (asm) randomize_loop.simps) (auto simp add: seq_eq_Inr split: if_splits)
    from "1.IH" [OF False s(1,2) u [symmetric] s(3,4,5)] grid_set_shape [OF s(3)]
    show ?thesis by simp
  qed
qed

lemma div_lt_height:
  fixes i w h :: int
  assumes "0 \<le> i" "i < w * h" "0 < w"
  shows "i div w < h"
proof -
  have "w * (i div w) + i mod w = i" by simp
  moreover have "0 \<le> i mod w" using assms(3) by simp
  ultimately have "w * (i div w) < w * h" using assms(2) by linarith
  then show ?thesis using assms(3) by (simp add: mult_less_cancel_left_pos)
qed

lemma randomize_loop_cells:
  assumes "grid_ready g" "0 \<le> i" "i \<le> width g * height g"
  shows "randomize_loop R (width g) (width g * height g) i e g =
           Inr (g\<lparr>data := take (nat i) (data g) @
                  map (\<lambda>k. initial_alive (draw_at R 0 frequency e k))
                    [0..<nat (width g * height g - i)]\<rparr>)"
proof -
  define w where "w = width g"
  define n where "n = width g * height g"
  have "w = width g \<Longrightarrow> n = width g * height g \<Longrightarrow> grid_ready g \<Longrightarrow> 0 \<le> i \<Longrightarrow> i \<le> n \<Longrightarrow>
        randomize_loop R w n i e g =
           Inr (g\<lparr>data := take (nat i) (data g) @
                  map (\<lambda>k. initial_alive (draw_at R 0 frequency e k)) [0..<nat (n - i)]\<rparr>)"
  proof (induction R w n i e g rule: randomize_loop.induct)
    case (1 R w n i e g)
    have r: "grid_ready g" by fact
    have wf: "grid_wf g" "0 < width g" "0 < height g"
      and dbl: "width g + width g \<le> INT_MAX" "height g + height g \<le> INT_MAX"
      using r by (simp_all add: grid_ready_def)
    have len: "length (data g) = nat n" "n \<le> INT_MAX"
      using wf(1) "1.prems"(2) by (simp_all add: grid_wf_def)
    show ?case
    proof (cases "i = n")
      case True
      then show ?thesis
        using len by (subst randomize_loop.simps) simp
    next
      case False
      with "1.prems" have i: "0 \<le> i" "i < n" by simp_all
      obtain v e' where u: "uniform R 0 frequency e = (v, e')"
        by (cases "uniform R 0 frequency e")
      let ?x = "i mod w" and ?y = "i div w"
      have x: "0 \<le> ?x" "?x < width g" using wf "1.prems"(1) by simp_all
      have y: "0 \<le> ?y" "?y < height g"
        using i wf "1.prems"(1,2) by (simp_all add: pos_imp_zdiv_nonneg_iff div_lt_height)
      have cx: "crem i w = Inr ?x" using i wf "1.prems"(1) by (simp add: crem_pos)
      have cy: "cdiv i w = Inr ?y" using i wf "1.prems"(1) by (simp add: cdiv_pos)
      let ?g = "g\<lparr>data := (data g)[nat i := initial_alive v]\<rparr>"
      have "grid_set g ?x ?y (initial_alive v) =
              Inr (g\<lparr>data := (data g)[nat (?x mod width g + (?y mod height g) * width g)
                      := initial_alive v]\<rparr>)"
        using x y dbl by (intro grid_set_wrapped wf) linarith+
      moreover have "?x mod width g + (?y mod height g) * width g = i"
        using x y "1.prems"(1) by simp
      ultimately have gs: "grid_set g ?x ?y (initial_alive v) = Inr ?g"
        by simp
      have lim: "i < INT_MAX" using i len by linarith
      have r': "grid_ready ?g" using r by (simp add: grid_ready_def grid_wf_def)
      have i1: "0 \<le> i + 1" "i + 1 \<le> n" using i by simp_all
      have step: "randomize_loop R w n i e g = randomize_loop R w n (i + 1) e' ?g"
        using False cx cy u gs lim by (subst randomize_loop.simps) simp
      have "randomize_loop R w n (i + 1) e' ?g =
              Inr (?g\<lparr>data := take (nat (i + 1)) (data ?g) @
                    map (\<lambda>k. initial_alive (draw_at R 0 frequency e' k)) [0..<nat (n - (i + 1))]\<rparr>)"
        using "1.IH" [OF False cx cy u [symmetric] gs lim _ _ r' i1] "1.prems"(1,2) by simp
      moreover have "nat (i + 1) = Suc (nat i)" "nat (n - i) = Suc (nat (n - (i + 1)))"
        using i by simp_all
      moreover have "nat i < length (data g)" using i len by simp
      ultimately show ?thesis
        using step u by (simp add: take_Suc_conv_app_nth map_upt_Suc del: upt_Suc)
    qed
  qed
  then show ?thesis
    using assms by (simp add: w_def n_def)
qed


lemma new_grid_shape:
  "new_grid mem w h = Inr g \<Longrightarrow> width g = w \<and> height g = h"
  by (auto simp add: new_grid_def seq_eq_Inr split: if_splits)

lemma new_game_of_life_shape:
  assumes "new_game_of_life R seed mem_a mem_b w h = Inr G"
  shows "width (front (buffer G)) = w \<and> height (front (buffer G)) = h \<and>
         width (back_grid (buffer G)) = w \<and> height (back_grid (buffer G)) = h"
proof -
  from assms obtain ga gb n g where
    s: "new_grid mem_a w h = Inr ga" "new_grid mem_b w h = Inr gb"
      "randomize_loop R w n 0 (seeded_engine R seed) gb = Inr g"
      "G = \<lparr>buffer = \<lparr>first = False, grid_a = ga, grid_b = g\<rparr>\<rparr>"
    by (auto simp add: new_game_of_life_def new_double_buffered_grid_def seq_eq_Inr
        back_grid_def set_back_def swap_def)
  show ?thesis
    using new_grid_shape [OF s(1)] new_grid_shape [OF s(2)] randomize_loop_shape [OF s(3)]
    by (simp add: s(4) front_def back_grid_def)
qed

lemma new_game_of_life_ready:
  assumes "0 < w" "0 < h" "w * h \<le> INT_MAX" "w + w \<le> INT_MAX" "h + h \<le> INT_MAX"
  shows "new_game_of_life R seed mem_a mem_b w h =
           Inr \<lparr>buffer = \<lparr>first = False,
                  grid_a = \<lparr>width = w, height = h, data = map mem_a [0..<nat (w * h)]\<rparr>,
                  grid_b = \<lparr>width = w, height = h,
                    data = map (\<lambda>k. initial_alive (draw_at R 0 frequency (seeded_engine R seed) k))
                             [0..<nat (w * h)]\<rparr>\<rparr>\<rparr>"
proof -
  have n: "0 \<le> w * h" using assms by simp
  let ?gb = "\<lparr>width = w, height = h, data = map mem_b [0..<nat (w * h)]\<rparr>"
  have lo: "INT_MIN \<le> 0" by (simp add: INT_MIN_def)
  have cm: "cmul w h = Inr (w * h)"
    unfolding cmul_def using n assms(3) lo by (intro checked_ok) linarith+
  have r: "grid_ready ?gb"
    using assms n lo by (simp add: grid_ready_def grid_wf_def int_ok_def)
  have "randomize_loop R (width ?gb) (width ?gb * height ?gb) 0 (seeded_engine R seed) ?gb =
          Inr (?gb\<lparr>data := take (nat 0) (data ?gb) @
                 map (\<lambda>k. initial_alive (draw_at R 0 frequency (seeded_engine R seed) k))
                   [0..<nat (width ?gb * height ?gb - 0)]\<rparr>)"
    using r n by (intro randomize_loop_cells) simp_all
  then have "randomize_loop R w (w * h) 0 (seeded_engine R seed) ?gb =
          Inr \<lparr>width = w, height = h,
               data = map (\<lambda>k. initial_alive (draw_at R 0 frequency (seeded_engine R seed) k))
                        [0..<nat (w * h)]\<rparr>"
    by simp
  then show ?thesis
    using n assms(3)
    by (simp add: new_game_of_life_def new_double_buffered_grid_def new_grid_ok cm
        back_grid_def set_back_def swap_def)
qed

lemma new_game_of_life_empty:
  assumes "w * h = 0"
  shows "new_game_of_life R seed mem_a mem_b w h =
           Inr \<lparr>buffer = \<lparr>first = False,
                  grid_a = \<lparr>width = w, height = h, data = []\<rparr>,
                  grid_b = \<lparr>width = w, height = h, data = []\<rparr>\<rparr>\<rparr>"
proof -
  have cm: "cmul w h = Inr 0"
    unfolding cmul_def assms by (simp add: checked_def int_ok_def INT_MIN_def INT_MAX_def)
  have ng: "new_grid mem w h = Inr \<lparr>width = w, height = h, data = []\<rparr>" for mem
    using cm by (simp add: new_grid_def)
  have "randomize_loop R w 0 0 (seeded_engine R seed) \<lparr>width = w, height = h, data = []\<rparr>
          = Inr \<lparr>width = w, height = h, data = []\<rparr>"
    by (subst randomize_loop.simps) simp
  then show ?thesis
    by (simp add: new_game_of_life_def new_double_buffered_grid_def ng cm
        back_grid_def set_back_def swap_def)
qed

text \<open>
  C5, as the spec states it: \<open>new_game\<close> coerces the requested dimensions to at least
  1 by 2 and rejects zero or negative ones, so that no grid has width below 1. With
  \<^verbatim>\<open>GOL_WIDTH=0\<close> on a terminal of 24 rows, \<open>new_game\<close> returns a game whose two grids
  have width 0 and height 48 and no cell: \<^verbatim>\<open>new bool[0]\<close> succeeds and the loop that
  fills the board does not run.
\<close>

theorem new_game_zero_width_counterexample:
  "requested_size zero_width_environment = Inr (0, 24) \<and>
   new_game lehmer zero_width_environment =
     Inr \<lparr>buffer = \<lparr>first = False,
            grid_a = \<lparr>width = 0, height = 48, data = []\<rparr>,
            grid_b = \<lparr>width = 0, height = 48, data = []\<rparr>\<rparr>\<rparr>"
proof -
  have rs: "requested_size zero_width_environment = Inr (0, 24)"
    by (simp add: requested_size_def zero_width_environment_def stoi_def is_space_def
        is_digit_def digit_value_def int_ok_def INT_MIN_def INT_MAX_def Let_def)
  have h2: "cmul 24 2 = Inr 48"
    by (simp add: cmul_def checked_def int_ok_def INT_MIN_def INT_MAX_def)
  show ?thesis
    by (simp add: rs new_game_def h2 new_game_of_life_empty)
qed

text \<open>
  C5, amended: \<open>new_game\<close> neither coerces nor validates the dimensions. With \<open>w\<close> and
  \<open>h\<close> the width and height requested (the terminal's columns and rows, or the values
  of \<^verbatim>\<open>GOL_WIDTH\<close> and \<^verbatim>\<open>GOL_HEIGHT\<close> when set), every game it returns has both grids
  of width exactly \<open>w\<close> and height exactly \<open>2 h\<close>; and it does return a game for every
  \<open>w \<ge> 0\<close> and \<open>h \<ge> 0\<close> whose sizes fit \<^verbatim>\<open>int\<close> arithmetic, zero included. A grid has
  width at least 1 and height at least 2 only when the request already had.
\<close>

theorem new_game_keeps_requested_size:
  assumes "requested_size env = Inr (w, h)"
  shows "(\<forall>G. new_game R env = Inr G \<longrightarrow>
            width (front (buffer G)) = w \<and> height (front (buffer G)) = h * 2 \<and>
            width (back_grid (buffer G)) = w \<and> height (back_grid (buffer G)) = h * 2) \<and>
         (0 \<le> w \<and> 0 \<le> h \<and> w * (h * 2) \<le> INT_MAX \<and> w + w \<le> INT_MAX \<and>
          h * 2 + h * 2 \<le> INT_MAX \<longrightarrow> (\<exists>G. new_game R env = Inr G))"
proof (rule conjI)
  show "\<forall>G. new_game R env = Inr G \<longrightarrow>
            width (front (buffer G)) = w \<and> height (front (buffer G)) = h * 2 \<and>
            width (back_grid (buffer G)) = w \<and> height (back_grid (buffer G)) = h * 2"
  proof (rule allI, rule impI)
    fix G assume "new_game R env = Inr G"
    with assms obtain h2 where h2: "cmul h 2 = Inr h2"
      and G: "new_game_of_life R (clock env) (storage_a env) (storage_b env) w h2 = Inr G"
      by (auto simp add: new_game_def seq_eq_Inr)
    from h2 have "h2 = h * 2"
      by (simp add: cmul_def checked_def split: if_splits)
    with new_game_of_life_shape [OF G]
    show "width (front (buffer G)) = w \<and> height (front (buffer G)) = h * 2 \<and>
          width (back_grid (buffer G)) = w \<and> height (back_grid (buffer G)) = h * 2"
      by simp
  qed
next
  show "0 \<le> w \<and> 0 \<le> h \<and> w * (h * 2) \<le> INT_MAX \<and> w + w \<le> INT_MAX \<and>
          h * 2 + h * 2 \<le> INT_MAX \<longrightarrow> (\<exists>G. new_game R env = Inr G)"
  proof (rule impI)
    assume a: "0 \<le> w \<and> 0 \<le> h \<and> w * (h * 2) \<le> INT_MAX \<and> w + w \<le> INT_MAX \<and>
            h * 2 + h * 2 \<le> INT_MAX"
    have lo: "INT_MIN \<le> 0" by (simp add: INT_MIN_def)
    have h2: "cmul h 2 = Inr (h * 2)"
      unfolding cmul_def using a lo by (intro checked_ok) linarith+
    have "\<exists>G. new_game_of_life R (clock env) (storage_a env) (storage_b env) w (h * 2) = Inr G"
    proof (cases "w * (h * 2) = 0")
      case True
      then show ?thesis by (simp only: new_game_of_life_empty) simp
    next
      case False
      with a have "0 < w" "0 < h * 2" by auto
      with a show ?thesis by (simp only: new_game_of_life_ready) simp
    qed
    then show "\<exists>G. new_game R env = Inr G"
      using assms h2 by (simp add: new_game_def)
  qed
qed

theorem new_game_keeps_requested_size_witness:
  "(\<exists>G. new_game lehmer small_environment = Inr G \<and>
        width (front (buffer G)) = 3 \<and> height (front (buffer G)) = 2)"
proof -
  have rs: "requested_size small_environment = Inr (3, 1)"
    by (simp add: requested_size_def small_environment_def stoi_def is_space_def
        is_digit_def digit_value_def int_ok_def INT_MIN_def INT_MAX_def Let_def)
  have b: "0 \<le> (3::int) \<and> 0 \<le> (1::int) \<and> 3 * (1 * 2) \<le> INT_MAX \<and> 3 + 3 \<le> INT_MAX \<and>
           1 * 2 + 1 * 2 \<le> INT_MAX"
    by (simp add: INT_MAX_def)
  from new_game_keeps_requested_size [OF rs, of lehmer] b
  show ?thesis by fastforce
qed

subsection \<open>The distribution of \<open>big_bang\<close>\<close>

lemma dead_before_increases:
  assumes "k1 < k2" "k2 \<le> length cs" "\<not> cs ! k1"
  shows "dead_before cs k1 < dead_before cs k2"
proof -
  have k1: "k1 < length cs" using assms by simp
  obtain m where m: "k2 = k1 + Suc m"
    using assms(1) less_iff_Suc_add by auto
  have "take k2 cs = take k1 cs @ take (Suc m) (drop k1 cs)"
    unfolding m by (rule take_add)
  also have "drop k1 cs = cs ! k1 # drop (Suc k1) cs"
    using k1 by (simp add: Cons_nth_drop_Suc)
  finally have "take k2 cs = take k1 cs @ cs ! k1 # take m (drop (Suc k1) cs)"
    by simp
  then show ?thesis
    using assms(3) by (simp add: dead_before_def)
qed

lemma uniform_probability_big_bang:
  "uniform_probability big_bang_lo big_bang_hi big_bang_alive = 1 / 11"
  by (simp add: uniform_probability_def big_bang_lo_def big_bang_hi_def big_bang_alive_def
      upto_rec1)

lemma uniform_probability_initial:
  "uniform_probability 0 frequency initial_alive = 1 / 4"
  by (simp add: uniform_probability_def frequency_def initial_alive_def upto_rec1)

text \<open>
  C3, as the spec states it: \<open>big_bang\<close> makes a dead cell alive with the same
  probability as the initial randomisation. \<open>big_bang\<close> draws from 0..10 and the
  constructor from 0..\<open>frequency\<close> = 0..3, each making the cell alive on a 0: one
  outcome in eleven against one in four.
\<close>

theorem big_bang_probability_counterexample:
  "uniform_probability big_bang_lo big_bang_hi big_bang_alive = 1 / 11 \<and>
   uniform_probability 0 frequency initial_alive = 1 / 4 \<and>
   uniform_probability big_bang_lo big_bang_hi big_bang_alive
     \<noteq> uniform_probability 0 frequency initial_alive"
  by (simp add: uniform_probability_big_bang uniform_probability_initial)

text \<open>
  C3, amended: \<open>big_bang\<close> never changes a live cell; each dead cell takes a draw of its
  own from the uniform distribution on 0..10 (the \<open>j\<close>-th dead cell the \<open>j\<close>-th value of
  the engine, distinct dead cells distinct draws) and becomes alive iff the draw is 0,
  that is with probability 1/11. The initial randomisation of the constructor gives
  cell \<open>k\<close> the \<open>k\<close>-th draw from 0..3 and makes it alive iff the draw is 0, that is
  with probability 1/4: the two distributions differ.
\<close>

theorem big_bang_seeds_dead_cells:
  assumes "grid_wf g"
  shows "\<exists>g'. big_bang R g = Inr g' \<and> width g' = width g \<and> height g' = height g \<and>
           length (data g') = length (data g) \<and>
           (\<forall>k. k < length (data g) \<and> data g ! k \<longrightarrow> data g' ! k) \<and>
           (\<forall>k. k < length (data g) \<and> \<not> data g ! k \<longrightarrow>
              data g' ! k = big_bang_alive
                (draw_at R big_bang_lo big_bang_hi (default_engine R) (dead_before (data g) k))) \<and>
           (\<forall>j k. j < k \<and> k < length (data g) \<and> \<not> data g ! j \<longrightarrow>
              dead_before (data g) j < dead_before (data g) k) \<and>
           uniform_probability big_bang_lo big_bang_hi big_bang_alive = 1 / 11 \<and>
           uniform_probability 0 frequency initial_alive = 1 / 4 \<and>
           (\<forall>seed mem_a mem_b w h.
              0 < w \<and> 0 < h \<and> w * h \<le> INT_MAX \<and> w + w \<le> INT_MAX \<and> h + h \<le> INT_MAX \<longrightarrow>
              (\<exists>G. new_game_of_life R seed mem_a mem_b w h = Inr G \<and>
                 (\<forall>k. k < nat (w * h) \<longrightarrow>
                    data (front (buffer G)) ! k =
                      initial_alive (draw_at R 0 frequency (seeded_engine R seed) k))))"
  by (simp add: big_bang_wf [OF assms] big_bang_cells_nth dead_before_increases
      uniform_probability_big_bang uniform_probability_initial new_game_of_life_ready front_def)

theorem big_bang_seeds_dead_cells_witness:
  "(\<exists>g'. big_bang lehmer lone_cell = Inr g' \<and> data g' ! 0 \<and> \<not> data g' ! 1 \<and> data g' ! 3) \<and>
   dead_before (data lone_cell) 1 < dead_before (data lone_cell) 3 \<and>
   (\<exists>G. new_game_of_life lehmer 12345 mem_zero mem_zero 3 2 = Inr G \<and>
        data (front (buffer G)) ! 1 \<and> \<not> data (front (buffer G)) ! 0)"
proof -
  have wf: "grid_wf lone_cell"
    by (simp add: lone_cell_def grid_wf_def int_ok_def INT_MAX_def INT_MIN_def)
  from big_bang_seeds_dead_cells [OF wf, of lehmer]
  obtain g' where g: "big_bang lehmer lone_cell = Inr g'"
    and live: "\<forall>k. k < length (data lone_cell) \<and> data lone_cell ! k \<longrightarrow> data g' ! k"
    and dead: "\<forall>k. k < length (data lone_cell) \<and> \<not> data lone_cell ! k \<longrightarrow>
              data g' ! k = big_bang_alive
                (draw_at lehmer big_bang_lo big_bang_hi (default_engine lehmer)
                  (dead_before (data lone_cell) k))"
    and apart: "\<forall>j k. j < k \<and> k < length (data lone_cell) \<and> \<not> data lone_cell ! j \<longrightarrow>
              dead_before (data lone_cell) j < dead_before (data lone_cell) k"
    and start: "\<forall>seed mem_a mem_b w h.
              0 < w \<and> 0 < h \<and> w * h \<le> INT_MAX \<and> w + w \<le> INT_MAX \<and> h + h \<le> INT_MAX \<longrightarrow>
              (\<exists>G. new_game_of_life lehmer seed mem_a mem_b w h = Inr G \<and>
                 (\<forall>k. k < nat (w * h) \<longrightarrow>
                    data (front (buffer G)) ! k =
                      initial_alive (draw_at lehmer 0 frequency (seeded_engine lehmer seed) k)))"
    by blast
  have 0: "data g' ! 0"
    using live [rule_format, of 0] by (simp add: lone_cell_def)
  have 1: "\<not> data g' ! 1"
    using dead [rule_format, of 1]
    by (simp add: lone_cell_def dead_before_def lehmer_def big_bang_lo_def big_bang_hi_def
        big_bang_alive_def)
  have 3: "data g' ! 3"
    using dead [rule_format, of 3]
    by (simp add: lone_cell_def dead_before_def lehmer_def big_bang_lo_def big_bang_hi_def
        big_bang_alive_def)
  have order: "dead_before (data lone_cell) 1 < dead_before (data lone_cell) 3"
    using apart [rule_format, of 1 3] by (simp add: lone_cell_def)
  have "0 < (3::int) \<and> 0 < (2::int) \<and> (3::int) * 2 \<le> INT_MAX \<and> (3::int) + 3 \<le> INT_MAX \<and>
        (2::int) + 2 \<le> INT_MAX"
    by (simp add: INT_MAX_def)
  from start [rule_format, OF this, of 12345 mem_zero mem_zero]
  obtain G where G: "new_game_of_life lehmer 12345 mem_zero mem_zero 3 2 = Inr G"
    and cells: "\<forall>k. k < nat (3 * 2) \<longrightarrow>
                    data (front (buffer G)) ! k =
                      initial_alive (draw_at lehmer 0 frequency (seeded_engine lehmer 12345) k)"
    by blast
  have c0: "\<not> data (front (buffer G)) ! 0"
    using cells [rule_format, of 0] by (simp add: lehmer_def frequency_def initial_alive_def)
  have c1: "data (front (buffer G)) ! 1"
    using cells [rule_format, of 1] by (simp add: lehmer_def frequency_def initial_alive_def)
  from g 0 1 3 order G c0 c1 show ?thesis by blast
qed

subsection \<open>The perturbations are functions of the grid\<close>

text \<open>
  C10: \<open>big_bang\<close> and \<open>thanos\<close> start from \<open>default_engine\<close> at every call and take no
  seed, so two grids with equal dimensions and equal cells give identical results.
  On a grid as the constructor leaves it the pattern is fixed by the one sequence of
  values of the default engine: the cell at \<open>k\<close> is decided by the value whose index is
  the number of dead (for \<open>thanos\<close>: live) cells before \<open>k\<close>.
\<close>

theorem perturbations_deterministic:
  assumes "width g1 = width g2" "height g1 = height g2" "data g1 = data g2"
  shows "big_bang R g1 = big_bang R g2 \<and> thanos R g1 = thanos R g2 \<and>
         (grid_wf g1 \<longrightarrow>
            big_bang R g2 = Inr (g1\<lparr>data := big_bang_cells R (default_engine R) (data g1)\<rparr>) \<and>
            thanos R g2 = Inr (g1\<lparr>data := thanos_cells R (default_engine R) (data g1)\<rparr>) \<and>
            (\<forall>k. k < length (data g1) \<longrightarrow>
               big_bang_cells R (default_engine R) (data g1) ! k =
                 (data g1 ! k \<or> big_bang_alive
                    (draw_at R big_bang_lo big_bang_hi (default_engine R)
                       (dead_before (data g1) k))) \<and>
               thanos_cells R (default_engine R) (data g1) ! k =
                 (data g1 ! k \<and> thanos_alive
                    (draw_at R thanos_lo thanos_hi (default_engine R)
                       (live_before (data g1) k)))))"
proof -
  have eq: "g1 = g2" using assms by simp
  show ?thesis
    unfolding eq by (simp add: big_bang_wf thanos_wf big_bang_cells_nth thanos_cells_nth)
qed

theorem perturbations_deterministic_witness:
  "big_bang lehmer lone_cell = big_bang lehmer (lone_cell\<lparr>data := True # replicate 5 False\<rparr>) \<and>
   thanos lehmer lone_cell = thanos lehmer (lone_cell\<lparr>data := True # replicate 5 False\<rparr>) \<and>
   big_bang lehmer (lone_cell\<lparr>data := True # replicate 5 False\<rparr>)
     = Inr \<lparr>width = 3, height = 2, data = [True, False, False, True, False, False]\<rparr>"
proof -
  let ?g2 = "lone_cell\<lparr>data := True # replicate 5 False\<rparr>"
  have same: "width lone_cell = width ?g2" "height lone_cell = height ?g2"
    "data lone_cell = data ?g2"
    by (simp_all add: lone_cell_def numeral_eq_Suc)
  have wf: "grid_wf lone_cell"
    by (simp add: lone_cell_def grid_wf_def int_ok_def INT_MAX_def INT_MIN_def)
  have cells: "big_bang_cells lehmer (default_engine lehmer) (data lone_cell)
                 = [True, False, False, True, False, False]"
    by (simp add: lone_cell_def lehmer_def big_bang_lo_def big_bang_hi_def big_bang_alive_def)
  from perturbations_deterministic [OF same, of lehmer] wf cells
  show ?thesis by (simp add: lone_cell_def)
qed

subsection \<open>The control loop\<close>

lemmas key_codes = key_of_def KEY_RESIZE_def

lemma loop_body_speed:
  assumes "speed_ok (tick_ms c)"
  shows "speed_ok (tick_ms (next_control (loop_body key sel c)))"
  using assms
  by (auto simp add: speed_ok_def loop_body_def next_control_def Let_def min_tick_ms_def
      max_tick_ms_def signed_divide_int_def)

lemma main_loop_speed:
  "speed_ok (tick_ms c) \<Longrightarrow> speed_ok (tick_ms (next_control (main_loop inputs c)))"
proof (induction inputs arbitrary: c)
  case Nil
  then show ?case by (simp add: next_control_def)
next
  case (Cons input inputs)
  obtain key sel where i: "input = (key, sel)" by (cases input)
  obtain c' calls quit where b: "loop_body key sel c = (c', calls, quit)"
    by (cases "loop_body key sel c")
  have c': "speed_ok (tick_ms c')"
    using loop_body_speed [OF Cons.prems, of key sel] b by (simp add: next_control_def)
  show ?case
  proof (cases quit)
    case True
    then show ?thesis using i b c' by (simp add: next_control_def)
  next
    case False
    obtain c'' calls' quit' where m: "main_loop inputs c' = (c'', calls', quit')"
      by (cases "main_loop inputs c'")
    from Cons.IH [OF c'] m have "speed_ok (tick_ms c'')" by (simp add: next_control_def)
    then show ?thesis using i b m False by (simp add: next_control_def)
  qed
qed

text \<open>
  C7: \<open>min_tick_ms\<close> is 8 and \<open>max_tick_ms\<close> is 1024; the loop starts with \<open>tick_ms\<close> at
  \<open>min_tick_ms\<close>, and after any finite sequence of inputs (any keys, so any sequence of
  \<^verbatim>\<open>-\<close> and \<^verbatim>\<open>+\<close>) \<open>tick_ms\<close> lies between \<open>min_tick_ms\<close> and \<open>max_tick_ms\<close>.
\<close>

theorem speed_clamp:
  "min_tick_ms = 8 \<and> max_tick_ms = 1024 \<and>
   tick_ms initial_control = min_tick_ms \<and>
   min_tick_ms \<le> tick_ms (next_control (main_loop inputs initial_control)) \<and>
   tick_ms (next_control (main_loop inputs initial_control)) \<le> max_tick_ms \<and>
   min_tick_ms \<le> tick_ms (next_control (main inputs)) \<and>
   tick_ms (next_control (main inputs)) \<le> max_tick_ms"
proof -
  have "speed_ok (tick_ms initial_control)"
    by (simp add: speed_ok_def initial_control_def min_tick_ms_def)
  then have s: "speed_ok (tick_ms (next_control (main_loop inputs initial_control)))"
    by (rule main_loop_speed)
  have m: "next_control (main inputs) = next_control (main_loop inputs initial_control)"
    by (simp add: main_def next_control_def split: prod.splits)
  from s show ?thesis
    unfolding m by (auto simp add: speed_ok_def min_tick_ms_def max_tick_ms_def initial_control_def)
qed

text \<open>
  C6, as the spec states it: an iteration whose key is the resize event or \<^verbatim>\<open>r\<close> only
  rebuilds and renders, and performs no generation transition. The body has no
  \<^verbatim>\<open>continue\<close>: with \<open>running\<close> true (the initial state) the iteration for \<^verbatim>\<open>r\<close> goes on
  to \<^verbatim>\<open>tick\<close> and \<^verbatim>\<open>render\<close>, and with \<^verbatim>\<open>random_selector\<close> 0 to \<^verbatim>\<open>big_bang\<close> as well.
\<close>

theorem resize_not_bypassing_counterexample:
  "calls_made (loop_body (key_of CHR ''r'') 5 initial_control)
     = [New_game, Render, Tick True, Render] \<and>
   list_ex is_tick (calls_made (loop_body (key_of CHR ''r'') 5 initial_control)) \<and>
   calls_made (loop_body KEY_RESIZE 0 initial_control)
     = [New_game, Render, Big_bang, Tick True, Render, Tick True, Render]"
  by (simp add: loop_body_def calls_made_def initial_control_def key_codes Let_def
      min_tick_ms_def max_tick_ms_def)

text \<open>
  C6, amended: in an iteration whose key is the resize event or \<^verbatim>\<open>r\<close>, the game is
  rebuilt and rendered first; \<open>tick_ms\<close>, \<open>wrapping\<close> and \<open>running\<close> are unchanged and the
  loop is not left. The remaining steps are not bypassed: while \<open>running\<close> is true, the
  perturbation selected by \<^verbatim>\<open>random_selector\<close> (if any) and one generation transition
  with its render follow in the same iteration; while it is false, nothing follows.
\<close>

theorem resize_iteration:
  assumes "key = KEY_RESIZE \<or> key = key_of CHR ''r''"
  shows "next_control (loop_body key sel c) = c \<and>
         \<not> quits (loop_body key sel c) \<and>
         calls_made (loop_body key sel c) =
           [New_game, Render] @
           (if running c \<and> sel = 0 then [Big_bang, Tick (wrapping c), Render] else []) @
           (if running c \<and> sel = 1 then [Invert, Render] else []) @
           (if running c \<and> sel = 2 then [Thanos, Render] else []) @
           (if running c then [Tick (wrapping c), Render] else []) \<and>
         (if running c then list_ex is_tick (calls_made (loop_body key sel c))
          else calls_made (loop_body key sel c) = [New_game, Render])"
  using assms
  by (auto simp add: loop_body_def next_control_def quits_def calls_made_def key_codes Let_def)

theorem resize_iteration_witness:
  "next_control (loop_body KEY_RESIZE 7 initial_control) = initial_control \<and>
   \<not> quits (loop_body KEY_RESIZE 7 initial_control) \<and>
   calls_made (loop_body KEY_RESIZE 7 initial_control) = [New_game, Render, Tick True, Render] \<and>
   calls_made (loop_body (key_of CHR ''r'') 7 paused_control) = [New_game, Render]"
  using resize_iteration [where key = KEY_RESIZE and sel = 7 and c = initial_control]
    resize_iteration [where key = "key_of CHR ''r''" and sel = 7 and c = paused_control]
  by (simp add: initial_control_def paused_control_def)

text \<open>
  C2, as the spec states it: every selected perturbation is immediately followed by a
  generation transition and a render, also while paused. For the key \<^verbatim>\<open>i\<close> (and
  \<^verbatim>\<open>t\<close>) while paused the body calls \<^verbatim>\<open>invert\<close> (\<^verbatim>\<open>thanos\<close>) and \<^verbatim>\<open>render\<close> and nothing
  else: no transition.
\<close>

theorem invert_paused_counterexample:
  "calls_made (loop_body (key_of CHR ''i'') 5 paused_control) = [Invert, Render] \<and>
   \<not> followed_by_tick_render Invert (calls_made (loop_body (key_of CHR ''i'') 5 paused_control)) \<and>
   \<not> list_ex is_tick (calls_made (loop_body (key_of CHR ''i'') 5 paused_control)) \<and>
   calls_made (loop_body (key_of CHR ''t'') 5 paused_control) = [Thanos, Render]"
  by (simp add: loop_body_def calls_made_def paused_control_def key_codes Let_def
      min_tick_ms_def max_tick_ms_def)

text \<open>
  C2, amended: when \<open>big_bang\<close> is selected (key \<^verbatim>\<open>b\<close>, or \<^verbatim>\<open>random_selector\<close> 0 while
  running), it is applied and immediately followed by one generation transition and a
  render, whatever \<open>running\<close> is. When \<open>invert\<close> or \<open>thanos\<close> is selected (key \<^verbatim>\<open>i\<close> or
  \<^verbatim>\<open>t\<close>, or \<^verbatim>\<open>random_selector\<close> 1 or 2 while running), it is applied and immediately
  followed by a render. A generation transition happens in an iteration exactly when
  \<open>big_bang\<close> was selected, or \<open>running\<close> is true, or the key is \<^verbatim>\<open>s\<close>: pressing \<^verbatim>\<open>i\<close> or
  \<^verbatim>\<open>t\<close> while paused does not advance the simulation. (\<open>running\<close> is read after the
  pause key of the same iteration has toggled it.)
\<close>

theorem perturbation_paths:
  "(key = key_of CHR ''b'' \<or> (running (next_control (loop_body key sel c)) \<and> sel = 0) \<longrightarrow>
      Big_bang \<in> set (calls_made (loop_body key sel c)) \<and>
      followed_by_tick_render Big_bang (calls_made (loop_body key sel c))) \<and>
   (key = key_of CHR ''i'' \<or> (running (next_control (loop_body key sel c)) \<and> sel = 1) \<longrightarrow>
      Invert \<in> set (calls_made (loop_body key sel c)) \<and>
      followed_by_render Invert (calls_made (loop_body key sel c))) \<and>
   (key = key_of CHR ''t'' \<or> (running (next_control (loop_body key sel c)) \<and> sel = 2) \<longrightarrow>
      Thanos \<in> set (calls_made (loop_body key sel c)) \<and>
      followed_by_render Thanos (calls_made (loop_body key sel c))) \<and>
   (list_ex is_tick (calls_made (loop_body key sel c)) \<longleftrightarrow>
      Big_bang \<in> set (calls_made (loop_body key sel c)) \<or>
      running (next_control (loop_body key sel c)) \<or> key = key_of CHR ''s'') \<and>
   ((key = key_of CHR ''i'' \<or> key = key_of CHR ''t'') \<and> \<not> running c \<longrightarrow>
      \<not> list_ex is_tick (calls_made (loop_body key sel c)))"
  by (auto simp add: loop_body_def next_control_def calls_made_def key_codes Let_def)

theorem perturbation_paths_witness:
  "followed_by_tick_render Big_bang (calls_made (loop_body (key_of CHR ''b'') 5 paused_control)) \<and>
   Big_bang \<in> set (calls_made (loop_body (key_of CHR ''b'') 5 paused_control)) \<and>
   followed_by_render Invert (calls_made (loop_body (key_of CHR ''i'') 5 paused_control)) \<and>
   \<not> list_ex is_tick (calls_made (loop_body (key_of CHR ''i'') 5 paused_control)) \<and>
   followed_by_render Thanos (calls_made (loop_body 0 2 initial_control)) \<and>
   list_ex is_tick (calls_made (loop_body 0 2 initial_control))"
  using perturbation_paths [where key = "key_of CHR ''b''" and c = paused_control and sel = 5]
    perturbation_paths [where key = "key_of CHR ''i''" and c = paused_control and sel = 5]
    perturbation_paths [where key = 0 and c = initial_control and sel = 2]
  by (simp add: paused_control_def initial_control_def key_codes loop_body_def next_control_def
      calls_made_def Let_def)

subsection \<open>A paused iteration on a concrete game\<close>

text \<open>
  The calls of the iteration for the key \<^verbatim>\<open>i\<close> while paused, carried out on a game: the
  front grid is complemented in place and drawn; the buffers are not swapped and no
  generation is computed.
\<close>

lemma invert_paused_world:
  "exec_calls lehmer small_environment
     (calls_made (loop_body (key_of CHR ''i'') 5 paused_control)) paused_world
   = Inr \<lparr>game = \<lparr>buffer = \<lparr>first = True,
             grid_a = \<lparr>width = 3, height = 2, data = [False, True, True, True, True, True]\<rparr>,
             grid_b = \<lparr>width = 3, height = 2, data = replicate 6 True\<rparr>\<rparr>\<rparr>,
           screen = [[Lower, Full, Full]], input_timeout = 8\<rparr>"
  by (simp add: loop_body_def calls_made_def paused_control_def key_codes Let_def
      min_tick_ms_def max_tick_ms_def paused_world_def lone_cell_def game_invert_def invert_def
      front_def set_front_def cmul_def checked_def int_ok_def INT_MAX_def INT_MIN_def
      invert_loop.simps render_def crem_def render_lines.simps render_line.simps
      grid_get_def cell_index_def index_expr_def cadd_def in_bounds_def glyph_of_def
      signed_modulo_int_def numeral_eq_Suc)

end
